theory Spec2Isabelle
  imports Main "HOL-Library.Char_ord" "HOL-Library.List_Lexorder" "HOL-Library.AList"
begin

section \<open>The package graph handed over by the resolver\<close>

text \<open>
  The program reads the graph that \<^verbatim>\<open>packages.Load\<close> returns: values of type
  \<^verbatim>\<open>*packages.Package\<close>, compared by pointer identity. A pointer is an address or
  \<^verbatim>\<open>nil\<close>; the heap is the finite list of the packages that were allocated, the address
  being the position. Of a package the program reads \<^verbatim>\<open>Module\<close> (a pointer that may be
  nil; of the module, \<^verbatim>\<open>Path\<close> and \<^verbatim>\<open>Main\<close>) and \<^verbatim>\<open>Imports\<close>. In the library
  \<^verbatim>\<open>Imports\<close> is a map from import paths to packages, and the program only ever ranges
  over its values: the list below holds these values in the order the range statement
  yields them, which may be any order.
\<close>

type_synonym addr = nat
type_synonym ptr = "addr option"

record module =
  Path :: string
  Main :: bool

record package =
  Module :: "module option"
  Imports :: "ptr list"

type_synonym heap = "package list"

text \<open>
  A run ends early by a panic (a nil pointer is dereferenced) or by \<^verbatim>\<open>log.Fatal\<close>, which
  writes its message to standard error and calls \<^verbatim>\<open>os.Exit(1)\<close>. \<open>BadAddr\<close> stands
  for an address outside the heap, which a Go program cannot hold; the model makes it an
  error of its own so that no statement depends on what such a pointer would yield.
\<close>

datatype error = NilDeref | BadAddr | Fatal string

definition deref :: "heap \<Rightarrow> ptr \<Rightarrow> error + package" where
  "deref h p =
     (case p of
        None \<Rightarrow> Inl NilDeref
      | Some a \<Rightarrow> if a < length h then Inr (h ! a) else Inl BadAddr)"

definition heap_ok :: "heap \<Rightarrow> bool" where
  "heap_ok h \<longleftrightarrow>
     (\<forall>pkg \<in> set h. \<forall>imp \<in> set (Imports pkg).
        case imp of None \<Rightarrow> True | Some b \<Rightarrow> b < length h)"

definition roots_ok :: "heap \<Rightarrow> ptr list \<Rightarrow> bool" where
  "roots_ok h roots \<longleftrightarrow>
     (\<forall>r \<in> set roots. case r of None \<Rightarrow> False | Some a \<Rightarrow> a < length h)"

section \<open>traverse\<close>

text \<open>
  The work list \<^verbatim>\<open>q\<close> is used as a stack: \<^verbatim>\<open>PushBack\<close> appends, and the loop removes
  \<^verbatim>\<open>q.Back()\<close>. \<^verbatim>\<open>seen\<close> is the set of keys of the map of visited pointers. The
  visitor is a closure that updates variables of its caller: here it takes the state of
  these variables and returns the new one, or the panic it raised. After the visitor has
  run, \<^verbatim>\<open>p.Imports\<close> dereferences \<^verbatim>\<open>p\<close>.
\<close>

definition unseen :: "heap \<Rightarrow> ptr set \<Rightarrow> nat" where
  "unseen h seen = card (Some ` {..<length h} - seen)"

function loop :: "heap \<Rightarrow> (ptr \<Rightarrow> 's \<Rightarrow> error + 's) \<Rightarrow> ptr list \<Rightarrow> ptr set \<Rightarrow> 's \<Rightarrow> error + 's" where
  "loop h visit q seen s =
     (if q = [] then Inr s
      else let p = last q; q' = butlast q in
        if p \<in> seen then loop h visit q' seen s
        else (case visit p s of
                Inl e \<Rightarrow> Inl e
              | Inr s' \<Rightarrow>
                 (case deref h p of
                    Inl e \<Rightarrow> Inl e
                  | Inr pkg \<Rightarrow>
                      loop h visit (q' @ filter (\<lambda>imp. imp \<noteq> None) (Imports pkg))
                        (insert p seen) s')))"
  by pat_completeness auto
termination
proof (relation "measures [\<lambda>(h, visit, q, seen, s). unseen h seen,
                           \<lambda>(h, visit, q, seen, s). length q]")
  show "wf (measures [\<lambda>(h :: heap, visit :: ptr \<Rightarrow> 's \<Rightarrow> error + 's, q :: ptr list,
                         seen :: ptr set, s :: 's). unseen h seen,
                      \<lambda>(h, visit, q, seen, s). length q])"
    by simp
next
  fix h :: heap and visit :: "ptr \<Rightarrow> 's \<Rightarrow> error + 's"
    and q q' :: "ptr list" and seen :: "ptr set" and s :: 's and p :: ptr
  assume "q \<noteq> []" "q' = butlast q"
  then show "((h, visit, q', seen, s), h, visit, q, seen, s)
      \<in> measures [\<lambda>(h, visit, q, seen, s). unseen h seen,
                  \<lambda>(h, visit, q, seen, s). length q]"
    by simp
next
  fix h :: heap and visit :: "ptr \<Rightarrow> 's \<Rightarrow> error + 's"
    and q q' :: "ptr list" and seen :: "ptr set" and s s' :: 's and p :: ptr
    and pkg :: package
  assume a: "p = last q" "p \<notin> seen" "deref h p = Inr pkg"
  from a(3) obtain a where p: "p = Some a" "a < length h"
    by (auto simp: deref_def split: option.splits if_splits)
  have "Some ` {..<length h} - insert p seen \<subset> Some ` {..<length h} - seen"
    using p a(2) by auto
  then have "unseen h (insert p seen) < unseen h seen"
    unfolding unseen_def by (intro psubset_card_mono) auto
  then show "((h, visit, q' @ filter (\<lambda>imp. imp \<noteq> None) (Imports pkg), insert p seen, s'),
              h, visit, q, seen, s)
      \<in> measures [\<lambda>(h, visit, q, seen, s). unseen h seen,
                  \<lambda>(h, visit, q, seen, s). length q]"
    by simp
qed

declare loop.simps [simp del]

definition traverse :: "heap \<Rightarrow> ptr list \<Rightarrow> (ptr \<Rightarrow> 's \<Rightarrow> error + 's) \<Rightarrow> 's \<Rightarrow> error + 's" where
  "traverse h roots visit s = loop h visit roots {} s"

text \<open>The visitor that only records each of its invocations, in order.\<close>

definition record_visit :: "ptr \<Rightarrow> ptr list \<Rightarrow> error + ptr list" where
  "record_visit p calls = Inr (calls @ [p])"

text \<open>Running a visitor over a sequence of pointers, up to its first panic.\<close>

fun visit_all :: "(ptr \<Rightarrow> 's \<Rightarrow> error + 's) \<Rightarrow> ptr list \<Rightarrow> 's \<Rightarrow> error + 's" where
  "visit_all visit [] s = Inr s"
| "visit_all visit (p # ps) s =
     (case visit p s of Inl e \<Rightarrow> Inl e | Inr s' \<Rightarrow> visit_all visit ps s')"

text \<open>
  The pointers reachable from the roots along non-nil import entries.
\<close>

definition imports_rel :: "heap \<Rightarrow> (ptr \<times> ptr) set" where
  "imports_rel h = {(Some a, Some b) | a b. a < length h \<and> Some b \<in> set (Imports (h ! a))}"

definition reachable :: "heap \<Rightarrow> ptr list \<Rightarrow> ptr set" where
  "reachable h roots = (imports_rel h)\<^sup>* `` set roots"

text \<open>The same graph with the nil entries removed from every import list.\<close>

definition drop_nil_imports :: "heap \<Rightarrow> heap" where
  "drop_nil_imports h = map (\<lambda>pkg. pkg\<lparr>Imports := filter (\<lambda>imp. imp \<noteq> None) (Imports pkg)\<rparr>) h"

section \<open>Go maps used as sets\<close>

text \<open>
  A \<^verbatim>\<open>map[string]struct{}\<close> is held as the list of its keys in the order a range
  statement over it yields them; Go leaves this order unspecified, so nothing may depend
  on it. The keys of a map are distinct. \<^verbatim>\<open>map[string]map[string]struct{}\<close> is an
  association list of such key lists.
\<close>

type_synonym strset = "string list"
type_synonym edgemap = "(string \<times> strset) list"

definition set_insert :: "string \<Rightarrow> strset \<Rightarrow> strset" where
  "set_insert k m = (if k \<in> set m then m else m @ [k])"

definition edges_get :: "edgemap \<Rightarrow> string \<Rightarrow> strset" where
  "edges_get edges f = (case map_of edges f of None \<Rightarrow> [] | Some tos \<Rightarrow> tos)"

definition strset_ok :: "strset \<Rightarrow> bool" where
  "strset_ok m \<longleftrightarrow> distinct m"

definition edgemap_ok :: "edgemap \<Rightarrow> bool" where
  "edgemap_ok edges \<longleftrightarrow> distinct (map fst edges) \<and> (\<forall>e \<in> set edges. distinct (snd e))"

text \<open>Two representations of the same map: the same keys, ranged over in two orders.\<close>

definition same_strset :: "strset \<Rightarrow> strset \<Rightarrow> bool" where
  "same_strset m m' \<longleftrightarrow> strset_ok m \<and> strset_ok m' \<and> set m = set m'"

definition same_edgemap :: "edgemap \<Rightarrow> edgemap \<Rightarrow> bool" where
  "same_edgemap edges edges' \<longleftrightarrow>
     edgemap_ok edges \<and> edgemap_ok edges' \<and> set (map fst edges) = set (map fst edges') \<and>
     (\<forall>f \<in> set (map fst edges). set (edges_get edges f) = set (edges_get edges' f))"

section \<open>Module projection and universe diff\<close>

definition modulePathOf :: "heap \<Rightarrow> ptr \<Rightarrow> string" where
  "modulePathOf h p =
     (case deref h p of
        Inl e \<Rightarrow> ''''
      | Inr pkg \<Rightarrow> (case Module pkg of None \<Rightarrow> '''' | Some m \<Rightarrow> Path m))"

text \<open>The body of the inner loop of the visitor of \<^verbatim>\<open>buildEdges\<close>, for one import.\<close>

definition buildEdges_import :: "heap \<Rightarrow> string \<Rightarrow> ptr \<Rightarrow> edgemap \<times> strset \<Rightarrow> edgemap \<times> strset" where
  "buildEdges_import h from imp = (\<lambda>(edges, nodes).
     let to = modulePathOf h imp in
     if to = '''' \<or> to = from then (edges, nodes)
     else
       let edges1 = (if map_of edges from = None then AList.update from [] edges else edges);
           edges2 = AList.update from (set_insert to (edges_get edges1 from)) edges1
       in (edges2, set_insert to nodes))"

definition buildEdges_visit :: "heap \<Rightarrow> ptr \<Rightarrow> edgemap \<times> strset \<Rightarrow> error + edgemap \<times> strset" where
  "buildEdges_visit h p = (\<lambda>(edges, nodes).
     let from = modulePathOf h p in
     if from = '''' then Inr (edges, nodes)
     else
       (case deref h p of
          Inl e \<Rightarrow> Inl e
        | Inr pkg \<Rightarrow>
            Inr (fold (buildEdges_import h from) (Imports pkg) (edges, set_insert from nodes))))"

definition buildEdges :: "heap \<Rightarrow> ptr list \<Rightarrow> error + edgemap \<times> strset" where
  "buildEdges h pkgs = traverse h pkgs (buildEdges_visit h) ([], [])"

text \<open>
  What holds of the two maps of \<^verbatim>\<open>buildEdges\<close> at every moment: no key is the empty
  identifier, and no source is among its own targets.
\<close>

definition projection_ok :: "edgemap \<times> strset \<Rightarrow> bool" where
  "projection_ok = (\<lambda>(edges, nodes).
     '''' \<notin> set nodes \<and>
     (\<forall>e \<in> set edges. fst e \<noteq> '''' \<and> '''' \<notin> set (snd e) \<and> fst e \<notin> set (snd e)))"

text \<open>The two maps of \<^verbatim>\<open>buildEdges\<close> are maps: no key occurs twice.\<close>

definition repr_ok :: "edgemap \<times> strset \<Rightarrow> bool" where
  "repr_ok = (\<lambda>(edges, nodes). edgemap_ok edges \<and> strset_ok nodes)"

definition difference :: "strset \<Rightarrow> strset \<Rightarrow> strset" where
  "difference a b = fold (\<lambda>k res. if k \<notin> set b then set_insert k res else res) a []"

text \<open>
  The same function with the maps held in a store of map objects, to state which map it
  writes to: \<^verbatim>\<open>make\<close> allocates \<^verbatim>\<open>res\<close> at a fresh address, and \<^verbatim>\<open>res[k] = struct{}{}\<close>
  is the only assignment of the function. It returns the store and the address of
  \<^verbatim>\<open>res\<close>.
\<close>

type_synonym store = "strset list"

definition difference_in :: "store \<Rightarrow> addr \<Rightarrow> addr \<Rightarrow> store \<times> addr" where
  "difference_in st a b =
     (let res = length st;
          st0 = st @ [[]]
      in (fold (\<lambda>k st'. if k \<notin> set (st' ! b) then st'[res := set_insert k (st' ! res)] else st')
            (st0 ! a) st0,
          res))"

section \<open>Rendering\<close>

text \<open>
  \<^verbatim>\<open>%d\<close> of an index (never negative) is its decimal numeral. \<^verbatim>\<open>%q\<close> is the
  library's \<^verbatim>\<open>strconv.Quote\<close>, which is not part of this repository: every rendering
  function takes it as the parameter \<open>quote\<close>. \<open>quote_plain\<close> agrees with it on
  printable ASCII identifiers that hold neither a double quote nor a backslash.
\<close>

definition nl :: string where
  "nl = [CHR 0x0A]"

definition digit_char :: "nat \<Rightarrow> char" where
  "digit_char d = char_of (48 + d)"

fun itoa :: "nat \<Rightarrow> string" where
  "itoa n = (if n < 10 then [digit_char n] else itoa (n div 10) @ [digit_char (n mod 10)])"

declare itoa.simps [simp del]

definition quote_plain :: "string \<Rightarrow> string" where
  "quote_plain s = [CHR 0x22] @ s @ [CHR 0x22]"

definition join :: "string \<Rightarrow> string list \<Rightarrow> string" where
  "join sep elems = (case elems of [] \<Rightarrow> [] | e # es \<Rightarrow> e @ concat (map (\<lambda>x. sep @ x) es))"

definition node_id :: "nat \<Rightarrow> string" where
  "node_id i = ''N'' @ itoa i"

definition testColor :: string where "testColor = ''#ffdddd''"
definition nonTestColor :: string where "nonTestColor = ''#ececff''"
definition mainColor :: string where "mainColor = ''#ddffdd''"

text \<open>
  The parts of \<^verbatim>\<open>writeDot\<close> that both revisions of the program share: the sorted
  node list, the index of each node, the node declarations and the edge lines.
  \<^verbatim>\<open>indexes[f]\<close> of a key that is absent is the zero value.
\<close>

definition all_nodes :: "strset \<Rightarrow> string list" where
  "all_nodes nodes = sort nodes"

definition make_indexes :: "string list \<Rightarrow> (string \<rightharpoonup> nat)" where
  "make_indexes allNodes =
     fold (\<lambda>(i, name) indexes. indexes(name \<mapsto> i)) (enumerate 0 allNodes) Map.empty"

definition index_of :: "(string \<rightharpoonup> nat) \<Rightarrow> string \<Rightarrow> nat" where
  "index_of indexes name = (case indexes name of None \<Rightarrow> 0 | Some i \<Rightarrow> i)"

definition node_line :: "(string \<Rightarrow> string) \<Rightarrow> nat \<Rightarrow> string \<Rightarrow> string" where
  "node_line quote i name = ''    N'' @ itoa i @ ''['' @ quote name @ '']'' @ nl"

definition node_decls :: "(string \<Rightarrow> string) \<Rightarrow> string list \<Rightarrow> string list" where
  "node_decls quote allNodes = map (\<lambda>(i, name). node_line quote i name) (enumerate 0 allNodes)"

definition edge_pairs :: "edgemap \<Rightarrow> (string \<times> string) list" where
  "edge_pairs edges =
     (let froms = sort (map fst edges) in
      concat (map (\<lambda>f. let tos = sort (edges_get edges f) in map (\<lambda>t. (f, t)) tos) froms))"

definition edge_line :: "nat \<Rightarrow> nat \<Rightarrow> string" where
  "edge_line i j = ''    N'' @ itoa i @ '' --> N'' @ itoa j @ nl"

definition edge_lines :: "(string \<rightharpoonup> nat) \<Rightarrow> edgemap \<Rightarrow> string list" where
  "edge_lines indexes edges =
     map (\<lambda>(f, t). edge_line (index_of indexes f) (index_of indexes t)) (edge_pairs edges)"

text \<open>
  The order in which the edge lines are to appear: by source, and for one source by target.
\<close>

definition edge_before :: "string \<times> string \<Rightarrow> string \<times> string \<Rightarrow> bool" where
  "edge_before e e' \<longleftrightarrow> fst e < fst e' \<or> (fst e = fst e' \<and> snd e < snd e')"

text \<open>The number that a decimal numeral denotes.\<close>

definition digit_val :: "char \<Rightarrow> nat" where
  "digit_val c = of_char c - 48"

definition atoi :: "string \<Rightarrow> nat" where
  "atoi s = foldl (\<lambda>a c. 10 * a + digit_val c) 0 s"

subsection \<open>The revision with three classes\<close>

definition selected :: "string list \<Rightarrow> (string \<Rightarrow> bool) \<Rightarrow> string list" where
  "selected allNodes chosen =
     map (\<lambda>(i, name). node_id i) (filter (\<lambda>(i, name). chosen name) (enumerate 0 allNodes))"

definition nodeColor :: "string list \<Rightarrow> string \<Rightarrow> string \<Rightarrow> (string \<Rightarrow> bool) \<Rightarrow> string list" where
  "nodeColor allNodes className color chosen =
     (if length (selected allNodes chosen) = 0 then []
      else [''    classDef '' @ className @ '' fill:'' @ color @ '',stroke:#333,stroke-width:1px;'' @ nl,
            ''    class '' @ join '','' (selected allNodes chosen) @ '' '' @ className @ '';'' @ nl])"

definition choose_mainModule :: "string \<Rightarrow> strset \<Rightarrow> string \<Rightarrow> bool" where
  "choose_mainModule mainMod testOnly name \<longleftrightarrow> name = mainMod"

definition choose_testOnlyDep :: "string \<Rightarrow> strset \<Rightarrow> string \<Rightarrow> bool" where
  "choose_testOnlyDep mainMod testOnly name \<longleftrightarrow> name \<in> set testOnly \<and> name \<noteq> mainMod"

definition choose_regularDep :: "string \<Rightarrow> strset \<Rightarrow> string \<Rightarrow> bool" where
  "choose_regularDep mainMod testOnly name \<longleftrightarrow> name \<notin> set testOnly \<and> name \<noteq> mainMod"

definition class_lines :: "string \<Rightarrow> string list \<Rightarrow> strset \<Rightarrow> string list" where
  "class_lines mainMod allNodes testOnly =
     nodeColor allNodes ''mainModule'' mainColor (choose_mainModule mainMod testOnly) @
     nodeColor allNodes ''testOnlyDep'' testColor (choose_testOnlyDep mainMod testOnly) @
     nodeColor allNodes ''regularDep'' nonTestColor (choose_regularDep mainMod testOnly)"

definition writeDot_lines :: "(string \<Rightarrow> string) \<Rightarrow> string \<Rightarrow> edgemap \<Rightarrow> strset \<Rightarrow> strset \<Rightarrow> string list" where
  "writeDot_lines quote mainMod edges nodes testOnly =
     (let allNodes = all_nodes nodes;
          indexes = make_indexes allNodes
      in [[CHR 0x60, CHR 0x60, CHR 0x60] @ ''mermaid'' @ nl, ''graph LR'' @ nl] @
         node_decls quote allNodes @
         edge_lines indexes edges @
         class_lines mainMod allNodes testOnly @
         [[CHR 0x60, CHR 0x60, CHR 0x60] @ nl])"

definition writeDot :: "(string \<Rightarrow> string) \<Rightarrow> string \<Rightarrow> edgemap \<Rightarrow> strset \<Rightarrow> strset \<Rightarrow> string" where
  "writeDot quote mainMod edges nodes testOnly =
     concat (writeDot_lines quote mainMod edges nodes testOnly)"

subsection \<open>The revision of \<^verbatim>\<open>src/main.go\<close>, with the one class \<^verbatim>\<open>red\<close>\<close>

definition main_go_members :: "string list \<Rightarrow> strset \<Rightarrow> string" where
  "main_go_members allNodes testOnly =
     fst (fold (\<lambda>(i, name) (out, printed).
                  if name \<in> set testOnly
                  then ((if printed then out @ '','' else out) @ node_id i, True)
                  else (out, printed))
            (enumerate 0 allNodes) ([], False))"

definition main_go_class_lines :: "string list \<Rightarrow> strset \<Rightarrow> string list" where
  "main_go_class_lines allNodes testOnly =
     [''    classDef red fill:#ffdddd,stroke:#333,stroke-width:1px;'' @ nl] @
     (if length testOnly > 0
      then [''    class '' @ main_go_members allNodes testOnly @ '' red;'' @ nl]
      else [])"

definition main_go_writeDot_lines :: "(string \<Rightarrow> string) \<Rightarrow> edgemap \<Rightarrow> strset \<Rightarrow> strset \<Rightarrow> string list" where
  "main_go_writeDot_lines quote edges nodes testOnly =
     (let allNodes = all_nodes nodes;
          indexes = make_indexes allNodes
      in [''graph LR'' @ nl] @
         node_decls quote allNodes @
         edge_lines indexes edges @
         main_go_class_lines allNodes testOnly)"

definition main_go_writeDot :: "(string \<Rightarrow> string) \<Rightarrow> edgemap \<Rightarrow> strset \<Rightarrow> strset \<Rightarrow> string" where
  "main_go_writeDot quote edges nodes testOnly =
     concat (main_go_writeDot_lines quote edges nodes testOnly)"

section \<open>The program\<close>

text \<open>
  What one call of the resolver yields: the roots \<^verbatim>\<open>pkgs\<close>, the error of
  \<^verbatim>\<open>packages.Load\<close> (its message, when not nil) and the errors that
  \<^verbatim>\<open>packages.PrintErrors\<close> finds in the graph, in the order in which it prints them to
  standard error, one per line; it returns their number. The heap \<open>h\<close> holds the
  packages of both loads. The resolver is a parameter: a function of \<^verbatim>\<open>cfg.Tests\<close> and
  the pattern. The program is run without arguments: \<^verbatim>\<open>flag.Parse\<close> has nothing to do.
\<close>

record load_result =
  load_pkgs :: "ptr list"
  load_err :: "string option"
  load_errors :: "string list"

type_synonym resolver = "bool \<Rightarrow> string \<Rightarrow> load_result"

definition show_bool :: "bool \<Rightarrow> string" where
  "show_bool b = (if b then ''true'' else ''false'')"

text \<open>The resolver reports an error: \<^verbatim>\<open>Load\<close> fails or \<^verbatim>\<open>PrintErrors\<close> finds errors.\<close>

definition reports_error :: "load_result \<Rightarrow> bool" where
  "reports_error r \<longleftrightarrow> load_err r \<noteq> None \<or> load_errors r \<noteq> []"

text \<open>
  \<open>Fatal\<close> carries what the run wrote to standard error before \<^verbatim>\<open>os.Exit(1)\<close>. The
  logger ends its message with a newline unless the message already ends with one; the
  date and time that it puts before the message are left out.
\<close>

definition log_output :: "string \<Rightarrow> string" where
  "log_output s = (if length s = 0 \<or> last s \<noteq> CHR 0x0A then s @ nl else s)"

definition PrintErrors :: "load_result \<Rightarrow> string \<times> nat" where
  "PrintErrors r = (concat (map (\<lambda>e. e @ nl) (load_errors r)), length (load_errors r))"

definition load_checked :: "resolver \<Rightarrow> bool \<Rightarrow> string \<Rightarrow> error + ptr list" where
  "load_checked resolve includeTests pattern =
     (let r = resolve includeTests pattern in
      case load_err r of
        Some err \<Rightarrow>
          Inl (Fatal (log_output (''packages.Load (Tests='' @ show_bool includeTests @ ''): '' @ err)))
      | None \<Rightarrow>
          (let (printed, n) = PrintErrors r in
           if n > 0 then Inl (Fatal (printed @ log_output ''aborting due to previous errors''))
           else Inr (load_pkgs r)))"

definition loadModuleSet_visit :: "heap \<Rightarrow> ptr \<Rightarrow> string \<times> strset \<Rightarrow> error + string \<times> strset" where
  "loadModuleSet_visit h p = (\<lambda>(mainMod, mods).
     case deref h p of
       Inl e \<Rightarrow> Inl e
     | Inr pkg \<Rightarrow>
         (case Module pkg of
            None \<Rightarrow> Inr (mainMod, mods)
          | Some m \<Rightarrow> Inr (if Main m then Path m else mainMod, set_insert (Path m) mods)))"

definition loadModuleSet :: "heap \<Rightarrow> resolver \<Rightarrow> bool \<Rightarrow> string \<Rightarrow> error + string \<times> ptr list \<times> strset" where
  "loadModuleSet h resolve includeTests pattern =
     (case load_checked resolve includeTests pattern of
        Inl e \<Rightarrow> Inl e
      | Inr pkgs \<Rightarrow>
          (case traverse h pkgs (loadModuleSet_visit h) ('''', []) of
             Inl e \<Rightarrow> Inl e
           | Inr (mainMod, mods) \<Rightarrow> Inr (mainMod, pkgs, mods)))"

text \<open>
  \<^verbatim>\<open>main\<close> up to its last statement: the arguments that it hands to
  \<^verbatim>\<open>writeDot\<close>. Nothing is written to standard output before that call.
\<close>

definition main_graph :: "heap \<Rightarrow> resolver \<Rightarrow> error + string \<times> edgemap \<times> strset \<times> strset" where
  "main_graph h resolve =
     (case loadModuleSet h resolve False ''all'' of
        Inl e \<Rightarrow> Inl e
      | Inr (mainMod, pkgs0, noTestMods) \<Rightarrow>
     (case loadModuleSet h resolve True ''all'' of
        Inl e \<Rightarrow> Inl e
      | Inr (mainMod1, testPkgs, withTestMods) \<Rightarrow>
     (let testOnly = difference withTestMods noTestMods in
      case buildEdges h testPkgs of
        Inl e \<Rightarrow> Inl e
      | Inr (edges, nodes) \<Rightarrow>
          Inr (mainMod, edges, fold set_insert testOnly nodes, testOnly))))"

definition main :: "heap \<Rightarrow> (string \<Rightarrow> string) \<Rightarrow> resolver \<Rightarrow> error + string" where
  "main h quote resolve =
     (case main_graph h resolve of
        Inl e \<Rightarrow> Inl e
      | Inr (mainMod, edges, nodes, testOnly) \<Rightarrow>
          Inr (writeDot quote mainMod edges nodes testOnly))"

subsection \<open>The revision of \<^verbatim>\<open>src/main.go\<close>\<close>

definition main_go_visit :: "heap \<Rightarrow> ptr \<Rightarrow> strset \<Rightarrow> error + strset" where
  "main_go_visit h p mods =
     (case deref h p of
        Inl e \<Rightarrow> Inl e
      | Inr pkg \<Rightarrow>
          (case Module pkg of
             None \<Rightarrow> Inr mods
           | Some m \<Rightarrow> Inr (set_insert (Path m) mods)))"

definition loadPkgsAndModuleSet :: "heap \<Rightarrow> resolver \<Rightarrow> bool \<Rightarrow> string \<Rightarrow> error + ptr list \<times> strset" where
  "loadPkgsAndModuleSet h resolve includeTests pattern =
     (case load_checked resolve includeTests pattern of
        Inl e \<Rightarrow> Inl e
      | Inr pkgs \<Rightarrow>
          (case traverse h pkgs (main_go_visit h) [] of
             Inl e \<Rightarrow> Inl e
           | Inr mods \<Rightarrow> Inr (pkgs, mods)))"

definition main_go_loadModuleSet :: "heap \<Rightarrow> resolver \<Rightarrow> bool \<Rightarrow> string \<Rightarrow> error + strset" where
  "main_go_loadModuleSet h resolve includeTests pattern =
     (case loadPkgsAndModuleSet h resolve includeTests pattern of
        Inl e \<Rightarrow> Inl e
      | Inr (pkgs, mods) \<Rightarrow> Inr mods)"

definition main_go_graph :: "heap \<Rightarrow> resolver \<Rightarrow> error + edgemap \<times> strset \<times> strset" where
  "main_go_graph h resolve =
     (case main_go_loadModuleSet h resolve False ''all'' of
        Inl e \<Rightarrow> Inl e
      | Inr noTestMods \<Rightarrow>
     (case loadPkgsAndModuleSet h resolve True ''all'' of
        Inl e \<Rightarrow> Inl e
      | Inr (testPkgs, withTestMods) \<Rightarrow>
     (let testOnly = difference withTestMods noTestMods in
      case buildEdges h testPkgs of
        Inl e \<Rightarrow> Inl e
      | Inr (edges, nodes) \<Rightarrow>
          Inr (edges, fold set_insert testOnly nodes, testOnly))))"

definition main_go_main :: "heap \<Rightarrow> (string \<Rightarrow> string) \<Rightarrow> resolver \<Rightarrow> error + string" where
  "main_go_main h quote resolve =
     (case main_go_graph h resolve of
        Inl e \<Rightarrow> Inl e
      | Inr (edges, nodes, testOnly) \<Rightarrow>
          Inr (main_go_writeDot quote edges nodes testOnly))"

subsection \<open>What the process leaves behind\<close>

text \<open>
  A run that returns from \<^verbatim>\<open>main\<close> has written the diagram to standard output and
  exits with status 0. \<^verbatim>\<open>log.Fatal\<close> exits with status 1 after its message; a panic
  prints its message (the stack trace is left out) and exits with status 2.
\<close>

record outcome =
  stdout :: string
  stderr :: string
  exit_status :: nat

definition panic_message :: "error \<Rightarrow> string" where
  "panic_message e =
     ''panic: runtime error: invalid memory address or nil pointer dereference'' @ nl"

definition outcome_of :: "error + string \<Rightarrow> outcome" where
  "outcome_of r =
     (case r of
        Inr out \<Rightarrow> \<lparr>stdout = out, stderr = [], exit_status = 0\<rparr>
      | Inl (Fatal msg) \<Rightarrow> \<lparr>stdout = [], stderr = msg, exit_status = 1\<rparr>
      | Inl e \<Rightarrow> \<lparr>stdout = [], stderr = panic_message e, exit_status = 2\<rparr>)"

section \<open>A package graph to run the program on\<close>

text \<open>
  Packages 0 and 1 import each other, package 2 imports itself, package 3 (without a
  module) is shared, and two import lists hold a nil entry. Package 5 is the variant of
  package 0 that a load with tests yields: it also imports the test tool. Package 6
  belongs to a module that imports nothing and that nothing imports.
\<close>

definition example_heap :: heap where
  "example_heap =
     [\<lparr>Module = Some \<lparr>Path = ''example.com/app'', Main = True\<rparr>,
        Imports = [Some 1, None, Some 2]\<rparr>,
      \<lparr>Module = Some \<lparr>Path = ''example.com/lib'', Main = False\<rparr>,
        Imports = [Some 3, Some 0]\<rparr>,
      \<lparr>Module = Some \<lparr>Path = ''example.com/app'', Main = True\<rparr>,
        Imports = [Some 2, Some 3]\<rparr>,
      \<lparr>Module = None, Imports = []\<rparr>,
      \<lparr>Module = Some \<lparr>Path = ''example.com/testtool'', Main = False\<rparr>,
        Imports = [Some 3]\<rparr>,
      \<lparr>Module = Some \<lparr>Path = ''example.com/app'', Main = True\<rparr>,
        Imports = [Some 1, Some 4, None, Some 2]\<rparr>,
      \<lparr>Module = Some \<lparr>Path = ''example.com/fixture'', Main = False\<rparr>,
        Imports = []\<rparr>]"

text \<open>
  A resolver for this graph: without tests the root is package 0, with tests the roots are
  packages 5 and 6. The second resolver finds an error in the load with tests.
\<close>

definition example_resolver :: resolver where
  "example_resolver includeTests pattern =
     (if includeTests
      then \<lparr>load_pkgs = [Some 5, Some 6], load_err = None, load_errors = []\<rparr>
      else \<lparr>load_pkgs = [Some 0], load_err = None, load_errors = []\<rparr>)"

definition failing_resolver :: resolver where
  "failing_resolver includeTests pattern =
     (if includeTests
      then \<lparr>load_pkgs = [Some 5, Some 6], load_err = None,
            load_errors = [''app_test.go:3:8: could not import example.com/testtool'']\<rparr>
      else \<lparr>load_pkgs = [Some 0], load_err = None, load_errors = []\<rparr>)"

section \<open>Properties of the traversal\<close>

lemma deref_Inr: "deref h p = Inr pkg \<longleftrightarrow> (\<exists>a. p = Some a \<and> a < length h \<and> pkg = h ! a)"
  by (auto simp: deref_def split: option.splits)

lemma heap_ok_import:
  "heap_ok h \<Longrightarrow> a < length h \<Longrightarrow> Some b \<in> set (Imports (h ! a)) \<Longrightarrow> b < length h"
  unfolding heap_ok_def by (metis nth_mem option.simps(5))

lemma roots_ok_append: "roots_ok h (q @ q') \<longleftrightarrow> roots_ok h q \<and> roots_ok h q'"
  by (auto simp: roots_ok_def)

lemma roots_ok_imports:
  assumes "heap_ok h" "a < length h"
  shows "roots_ok h (filter (\<lambda>imp. imp \<noteq> None) (Imports (h ! a)))"
  using heap_ok_import[OF assms] by (auto simp: roots_ok_def split: option.splits)

lemma imports_rel_step:
  "a < length h \<Longrightarrow> Some b \<in> set (Imports (h ! a)) \<Longrightarrow> (Some a, Some b) \<in> imports_rel h"
  by (auto simp: imports_rel_def)

lemma reachable_roots: "set roots \<subseteq> reachable h roots"
  by (auto simp: reachable_def)

lemma reachable_closed:
  "Some a \<in> reachable h roots \<Longrightarrow> a < length h \<Longrightarrow> Some b \<in> set (Imports (h ! a))
     \<Longrightarrow> Some b \<in> reachable h roots"
  unfolding reachable_def
  by (meson Image_iff imports_rel_step rtrancl.rtrancl_into_rtrancl)

lemma reachable_least:
  assumes "set roots \<subseteq> S"
    and "\<And>a b. Some a \<in> S \<Longrightarrow> a < length h \<Longrightarrow> Some b \<in> set (Imports (h ! a)) \<Longrightarrow> Some b \<in> S"
  shows "reachable h roots \<subseteq> S"
proof
  fix x assume "x \<in> reachable h roots"
  then obtain r where r: "r \<in> set roots" "(r, x) \<in> (imports_rel h)\<^sup>*"
    by (auto simp: reachable_def)
  from r(2) show "x \<in> S"
  proof (induction rule: rtrancl_induct)
    case base
    then show ?case using r(1) assms(1) by auto
  next
    case (step y z)
    then show ?case using assms(2) by (auto simp: imports_rel_def)
  qed
qed

lemma reachable_mono: "set q \<subseteq> reachable h roots \<Longrightarrow> reachable h q \<subseteq> reachable h roots"
  by (rule reachable_least) (auto intro: reachable_closed)

text \<open>
  One run of the loop from the work list \<open>q\<close> and the visited set \<open>seen\<close> calls the
  visitor on a sequence \<open>new\<close> of pointers that does not depend on the visitor: the
  pointers are distinct, none was visited before, each is reachable from \<open>q\<close>, everything
  in \<open>q\<close> is visited at the end, and so is every import of a pointer of \<open>new\<close>.
\<close>

lemma loop_calls:
  fixes visit0 :: "ptr \<Rightarrow> ptr list \<Rightarrow> error + ptr list"
  assumes "visit0 = record_visit" "heap_ok h" "roots_ok h q"
  shows "\<exists>new. loop h visit0 q seen calls = Inr (calls @ new) \<and>
           (\<forall>(visit :: ptr \<Rightarrow> 's \<Rightarrow> error + 's) s. loop h visit q seen s = visit_all visit new s) \<and>
           distinct new \<and> set new \<inter> seen = {} \<and> set q \<subseteq> seen \<union> set new \<and>
           set new \<subseteq> reachable h q \<and>
           (\<forall>a b. Some a \<in> set new \<longrightarrow> Some b \<in> set (Imports (h ! a)) \<longrightarrow> Some b \<in> seen \<union> set new)"
  using assms
proof (induction h visit0 q seen calls rule: loop.induct)
  case (1 h visit0 q seen calls)
  note v = "1.prems"(1) and hok = "1.prems"(2) and qok = "1.prems"(3)
  show ?case
  proof (cases "q = []")
    case True
    have "loop h visit0 q seen calls = Inr (calls @ [])"
      using True by (subst loop.simps) simp
    moreover have "\<forall>(visit :: ptr \<Rightarrow> 's \<Rightarrow> error + 's) s. loop h visit q seen s = visit_all visit [] s"
      using True by (subst loop.simps) simp
    ultimately show ?thesis using True by (intro exI[of _ "[]"]) simp
  next
    case False
    define p where "p = last q"
    define q' where "q' = butlast q"
    have q: "q = q' @ [p]" using False by (simp add: p_def q'_def)
    have ok': "roots_ok h q'" using qok q by (simp add: roots_ok_def)
    from qok q obtain a where a: "p = Some a" "a < length h"
      by (auto simp: roots_ok_def split: option.splits)
    define imps where "imps = filter (\<lambda>imp. imp \<noteq> None) (Imports (h ! a))"
    have unfold: "loop h visit q seen s =
        (if p \<in> seen then loop h visit q' seen s
         else case visit p s of Inl e \<Rightarrow> Inl e
              | Inr s' \<Rightarrow> loop h visit (q' @ imps) (insert p seen) s')"
      for visit :: "ptr \<Rightarrow> 't \<Rightarrow> error + 't" and s
    proof -
      have d: "deref h p = Inr (h ! a)" using a by (simp add: deref_def)
      show ?thesis
        using False
        by (subst loop.simps)
           (simp add: p_def[symmetric] q'_def[symmetric] d Let_def imps_def split: sum.splits)
    qed
    show ?thesis
    proof (cases "p \<in> seen")
      case True
      from "1.IH"(1)[OF False p_def q'_def True v hok ok']
      obtain new where new: "loop h visit0 q' seen calls = Inr (calls @ new)"
        "\<forall>(visit :: ptr \<Rightarrow> 's \<Rightarrow> error + 's) s. loop h visit q' seen s = visit_all visit new s"
        "distinct new" "set new \<inter> seen = {}" "set q' \<subseteq> seen \<union> set new"
        "set new \<subseteq> reachable h q'"
        "\<forall>a b. Some a \<in> set new \<longrightarrow> Some b \<in> set (Imports (h ! a)) \<longrightarrow> Some b \<in> seen \<union> set new"
        by blast
      have "reachable h q' \<subseteq> reachable h q"
        by (rule reachable_mono) (use q reachable_roots[of q h] in auto)
      then have r: "set new \<subseteq> reachable h q" using new(6) by auto
      have l0: "loop h visit0 q seen calls = Inr (calls @ new)"
        using True new(1) by (simp add: unfold)
      have l1: "\<forall>(visit :: ptr \<Rightarrow> 's \<Rightarrow> error + 's) s. loop h visit q seen s = visit_all visit new s"
        using True new(2) by (simp add: unfold)
      have c2: "set q \<subseteq> seen \<union> set new" using new(5) q True by auto
      show ?thesis
        using l0 l1 new(3,4,7) c2 r by (intro exI[of _ new]) blast
    next
      case pf: False
      have d: "deref h p = Inr (h ! a)" using a by (simp add: deref_def)
      have rv: "visit0 p calls = Inr (calls @ [p])" by (simp add: v record_visit_def)
      have okn: "roots_ok h (q' @ imps)"
        using ok' roots_ok_imports[OF hok a(2)] by (simp add: roots_ok_append imps_def)
      have imps_eq: "filter (\<lambda>imp. imp \<noteq> None) (Imports (h ! a)) = imps" by (simp add: imps_def)
      from "1.IH"(2)[OF False p_def q'_def pf rv d, unfolded imps_eq, OF v hok okn]
      obtain new where new: "loop h visit0 (q' @ imps) (insert p seen) (calls @ [p]) = Inr ((calls @ [p]) @ new)"
        "\<forall>(visit :: ptr \<Rightarrow> 's \<Rightarrow> error + 's) s. loop h visit (q' @ imps) (insert p seen) s = visit_all visit new s"
        "distinct new" "set new \<inter> insert p seen = {}" "set (q' @ imps) \<subseteq> insert p seen \<union> set new"
        "set new \<subseteq> reachable h (q' @ imps)"
        "\<forall>a b. Some a \<in> set new \<longrightarrow> Some b \<in> set (Imports (h ! a)) \<longrightarrow> Some b \<in> insert p seen \<union> set new"
        by blast
      have l0: "loop h visit0 q seen calls = Inr (calls @ (p # new))"
        using pf new(1) rv by (simp add: unfold)
      have l1: "\<forall>(visit :: ptr \<Rightarrow> 's \<Rightarrow> error + 's) s. loop h visit q seen s = visit_all visit (p # new) s"
        using pf new(2) by (simp add: unfold split: sum.splits)
      have "set (q' @ imps) \<subseteq> reachable h q"
        using reachable_roots[of q h] q a reachable_closed[of a h q]
        by (auto simp: imps_def)
      then have r: "reachable h (q' @ imps) \<subseteq> reachable h q" by (rule reachable_mono)
      have pr: "p \<in> reachable h q" using reachable_roots[of q h] q by auto
      have cl: "\<forall>b. Some b \<in> set (Imports (h ! a)) \<longrightarrow> Some b \<in> seen \<union> set (p # new)"
        using new(5) by (auto simp: imps_def)
      have c1: "distinct (p # new)" "set (p # new) \<inter> seen = {}" using new(3,4) pf by auto
      have c2: "set q \<subseteq> seen \<union> set (p # new)" using new(5) q by auto
      have c3: "set (p # new) \<subseteq> reachable h q" using new(6) r pr by auto
      have c4: "\<forall>a b. Some a \<in> set (p # new) \<longrightarrow> Some b \<in> set (Imports (h ! a)) \<longrightarrow> Some b \<in> seen \<union> set (p # new)"
        using new(7) cl a(1) by auto
      show ?thesis
        using l0 l1 c1 c2 c3 c4 by (intro exI[of _ "p # new"]) blast
    qed
  qed
qed

lemma traverse_calls:
  assumes "heap_ok h" "roots_ok h roots"
  shows "\<exists>calls. traverse h roots record_visit [] = Inr calls \<and>
           (\<forall>(visit :: ptr \<Rightarrow> 's \<Rightarrow> error + 's) s. traverse h roots visit s = visit_all visit calls s) \<and>
           distinct calls \<and> set calls = reachable h roots \<and>
           length calls = card (reachable h roots)"
proof -
  from loop_calls[OF refl assms, of "{}" "[]", where 's = 's]
  obtain new where new: "loop h record_visit roots {} [] = Inr new"
    "\<forall>(visit :: ptr \<Rightarrow> 's \<Rightarrow> error + 's) s. loop h visit roots {} s = visit_all visit new s"
    "distinct new" "set roots \<subseteq> set new" "set new \<subseteq> reachable h roots"
    "\<forall>a b. Some a \<in> set new \<longrightarrow> Some b \<in> set (Imports (h ! a)) \<longrightarrow> Some b \<in> set new"
    by auto
  have "reachable h roots \<subseteq> set new"
    by (rule reachable_least) (use new(4,6) in auto)
  with new(5) have eq: "set new = reachable h roots" by auto
  have "length new = card (reachable h roots)"
    using distinct_card[OF new(3)] eq by simp
  with new eq show ?thesis
    by (intro exI[of _ new]) (simp add: traverse_def)
qed

lemma reachable_valid:
  assumes "heap_ok h" "roots_ok h roots" "p \<in> reachable h roots"
  shows "\<exists>a. p = Some a \<and> a < length h"
proof -
  have "reachable h roots \<subseteq> Some ` {..<length h}"
  proof (rule reachable_least)
    show "set roots \<subseteq> Some ` {..<length h}"
      using assms(2) by (auto simp: roots_ok_def split: option.splits)
  next
    fix a b
    assume "a < length h" "Some b \<in> set (Imports (h ! a))"
    then show "Some b \<in> Some ` {..<length h}"
      using heap_ok_import[OF assms(1)] by auto
  qed
  with assms(3) show ?thesis by auto
qed

text \<open>
  C1. For every well-formed package graph of non-nil roots (cycles, self-imports and shared
  sub-graphs included), \<open>traverse\<close> returns, and there is one sequence \<open>calls\<close> of
  pointers such that every visitor is invoked on exactly this sequence, in this order (up
  to the visitor's own first panic): \<open>calls\<close> has no repetition, holds exactly the
  pointers reachable from the roots, the roots included, and its length, the number of
  invocations, is the number of distinct reachable pointers.
\<close>

theorem traverse_visits_each_reachable_once:
  assumes "heap_ok h" "roots_ok h roots"
  shows "\<exists>calls. traverse h roots record_visit [] = Inr calls \<and>
           (\<forall>(visit :: ptr \<Rightarrow> 's \<Rightarrow> error + 's) s. traverse h roots visit s = visit_all visit calls s) \<and>
           distinct calls \<and> set calls = reachable h roots \<and>
           length calls = card (reachable h roots)"
  using assms by (rule traverse_calls)

lemma example_heap_ok: "heap_ok example_heap"
  by (simp add: heap_ok_def example_heap_def)

theorem traverse_visits_each_reachable_once_witness:
  "heap_ok example_heap \<and> roots_ok example_heap [Some 0, Some 1] \<and>
   traverse example_heap [Some 0, Some 1] record_visit [] = Inr [Some 1, Some 0, Some 2, Some 3] \<and>
   reachable example_heap [Some 0, Some 1] = {Some 0, Some 1, Some 2, Some 3} \<and>
   card (reachable example_heap [Some 0, Some 1]) = 4"
proof -
  have r: "roots_ok example_heap [Some 0, Some 1]"
    by (simp add: roots_ok_def example_heap_def)
  have t: "traverse example_heap [Some 0, Some 1] record_visit [] = Inr [Some 1, Some 0, Some 2, Some 3]"
    by (simp add: traverse_def loop.simps example_heap_def deref_def record_visit_def)
  from traverse_visits_each_reachable_once[OF example_heap_ok r, where 's = unit] t
  show ?thesis using r example_heap_ok by auto
qed


section \<open>Properties of the maps used as sets\<close>

lemma set_set_insert [simp]: "set (set_insert k m) = insert k (set m)"
  by (auto simp: set_insert_def)

lemma distinct_set_insert [simp]: "distinct (set_insert k m) = distinct m"
  by (auto simp: set_insert_def)

lemma set_fold_set_insert [simp]: "set (fold set_insert ks m) = set ks \<union> set m"
  by (induction ks arbitrary: m) auto

lemma distinct_fold_set_insert [simp]: "distinct (fold set_insert ks m) = distinct m"
  by (induction ks arbitrary: m) auto

lemma set_update_subset: "set (AList.update k v al) \<subseteq> insert (k, v) (set al)"
  by (induction al) auto

lemma edges_get_cases:
  "edges_get edges f = [] \<or> (f, edges_get edges f) \<in> set edges"
  by (auto simp: edges_get_def split: option.splits dest: map_of_SomeD)

lemma edges_get_update [simp]:
  "edges_get (AList.update k v al) f = (if f = k then v else edges_get al f)"
  by (simp add: edges_get_def update_conv')

section \<open>Properties of the universe diff\<close>

lemma difference_fold:
  "set (fold (\<lambda>k res. if k \<notin> set b then set_insert k res else res) a acc) = set acc \<union> (set a - set b)"
  by (induction a arbitrary: acc) auto

lemma difference_fold_distinct:
  "distinct (fold (\<lambda>k res. if k \<notin> set b then set_insert k res else res) a acc) = distinct acc"
  by (induction a arbitrary: acc) auto

lemma set_difference [simp]: "set (difference a b) = set a - set b"
  by (simp add: difference_def difference_fold)

lemma distinct_difference [simp]: "distinct (difference a b)"
  by (simp add: difference_def difference_fold_distinct)

lemma difference_in_fold:
  assumes "a < length st" "b < length st" "r = length st"
    "length st' = Suc (length st)" "\<forall>i < length st. st' ! i = st ! i"
  shows "fold (\<lambda>k s. if k \<notin> set (s ! b) then s[r := set_insert k (s ! r)] else s) ks st'
         = st'[r := fold (\<lambda>k res. if k \<notin> set (st ! b) then set_insert k res else res) ks (st' ! r)]"
  using assms(4,5)
proof (induction ks arbitrary: st')
  case Nil
  then show ?case by simp
next
  case (Cons k ks)
  let ?s = "st'[r := set_insert k (st' ! r)]"
  have b: "st' ! b = st ! b" using Cons.prems assms(2) by simp
  have l: "length ?s = Suc (length st)" using Cons.prems by simp
  have u: "\<forall>i < length st. ?s ! i = st ! i" using Cons.prems assms(3) by simp
  show ?case
  proof (cases "k \<in> set (st ! b)")
    case True
    then show ?thesis using Cons.IH[OF Cons.prems] b by simp
  next
    case False
    then show ?thesis using Cons.IH[OF l u] b Cons.prems(1) assms(3) by simp
  qed
qed

text \<open>
  C3. \<open>difference(B, A)\<close> allocates a new map and fills it with exactly the keys of
  \<open>B\<close> that are not keys of \<open>A\<close>; when the two universes hold the same identifiers the
  result is empty. Its arguments are two sets of identifiers and nothing else (no edge
  data), and every map that existed before the call, the two arguments among them, is
  unchanged after it, also when the two arguments are the same map.
\<close>

theorem difference_is_set_difference:
  assumes "b < length st" "a < length st"
  shows "case difference_in st b a of (st', res) \<Rightarrow>
           res = length st \<and> length st' = Suc (length st) \<and>
           st' ! res = difference (st ! b) (st ! a) \<and>
           set (st' ! res) = set (st ! b) - set (st ! a) \<and>
           (set (st ! a) = set (st ! b) \<longrightarrow> st' ! res = []) \<and>
           (\<forall>i < length st. st' ! i = st ! i)"
proof -
  let ?st0 = "st @ [[]]"
  have f: "fold (\<lambda>k s. if k \<notin> set (s ! a) then s[length st := set_insert k (s ! length st)] else s)
             (st ! b) ?st0
           = ?st0[length st := difference (st ! b) (st ! a)]"
    using difference_in_fold[OF assms refl, of ?st0 "st ! b"]
    by (simp add: nth_append difference_def)
  have d: "difference_in st b a = (?st0[length st := difference (st ! b) (st ! a)], length st)"
    using assms(1) f by (simp add: difference_in_def Let_def nth_append)
  have e: "set (st ! a) = set (st ! b) \<longrightarrow> difference (st ! b) (st ! a) = []"
  proof
    assume "set (st ! a) = set (st ! b)"
    then have "set (difference (st ! b) (st ! a)) = {}" by simp
    then show "difference (st ! b) (st ! a) = []" by (simp only: set_empty)
  qed
  show ?thesis
    using e by (simp add: d nth_append)
qed

theorem difference_is_set_difference_witness:
  "(1::nat) < length [[''app'', ''lib''], [''lib'', ''testtool'', ''app'']] \<and>
   (0::nat) < length [[''app'', ''lib''], [''lib'', ''testtool'', ''app'']] \<and>
   difference_in [[''app'', ''lib''], [''lib'', ''testtool'', ''app'']] 1 0
     = ([[''app'', ''lib''], [''lib'', ''testtool'', ''app''], [''testtool'']], 2) \<and>
   difference [''lib'', ''testtool'', ''app''] [''app'', ''lib''] = [''testtool'']"
  using difference_is_set_difference[of 1 "[[''app'', ''lib''], [''lib'', ''testtool'', ''app'']]" 0]
  by (simp add: difference_in_def difference_def set_insert_def)


section \<open>Properties of the module projection\<close>

lemma loop_invariant:
  "(\<And>p s s'. I s \<Longrightarrow> visit p s = Inr s' \<Longrightarrow> I s') \<Longrightarrow> I s \<Longrightarrow>
   loop h visit q seen s = Inr s' \<Longrightarrow> I s'"
proof (induction h visit q seen s rule: loop.induct)
  case (1 h visit q seen s)
  note step = "1.prems"(1) and init = "1.prems"(2) and run = "1.prems"(3)
  show ?case
  proof (cases "q = []")
    case True
    with init run show ?thesis by (simp add: loop.simps)
  next
    case False
    show ?thesis
    proof (cases "last q \<in> seen")
      case True
      with False run have "loop h visit (butlast q) seen s = Inr s'"
        by (subst (asm) loop.simps) simp
      from "1.IH"(1)[OF False refl refl True step init this] show ?thesis
        by simp
    next
      case nseen: False
      from False nseen run obtain s1 pkg where
        v: "visit (last q) s = Inr s1" and d: "deref h (last q) = Inr pkg" and
        l: "loop h visit (butlast q @ filter (\<lambda>imp. imp \<noteq> None) (Imports pkg))
              (insert (last q) seen) s1 = Inr s'"
        by (subst (asm) loop.simps) (auto simp: Let_def split: sum.splits)
      have "I s1" using step[OF init v] .
      from "1.IH"(2)[OF False refl refl nseen v d step this l] show ?thesis
        by simp
    qed
  qed
qed

lemma traverse_invariant:
  assumes "\<And>p s s'. I s \<Longrightarrow> visit p s = Inr s' \<Longrightarrow> I s'"
    and "I s" and "traverse h roots visit s = Inr s'"
  shows "I s'"
  using loop_invariant[of I visit s h roots "{}" s'] assms by (simp add: traverse_def)

lemma visit_all_total:
  assumes "\<And>p s. p \<in> set ps \<Longrightarrow> \<exists>s'. visit p s = Inr s'"
  shows "\<exists>s'. visit_all visit ps s = Inr s'"
  using assms
proof (induction ps arbitrary: s)
  case Nil
  then show ?case by simp
next
  case (Cons p ps)
  then obtain s1 where "visit p s = Inr s1" by fastforce
  with Cons show ?case by simp
qed

lemma traverse_total:
  assumes "heap_ok h" "roots_ok h roots"
    and "\<And>a s. a < length h \<Longrightarrow> \<exists>s'. visit (Some a) s = Inr s'"
  shows "\<exists>s'. traverse h roots visit s = Inr s'"
proof -
  from traverse_calls[OF assms(1,2)] obtain calls where
    c: "\<forall>(visit :: ptr \<Rightarrow> 'a \<Rightarrow> error + 'a) s. traverse h roots visit s = visit_all visit calls s"
    and r: "set calls = reachable h roots"
    by blast
  have "\<exists>s'. visit p s = Inr s'" if "p \<in> set calls" for p s
  proof -
    from that r obtain a where "p = Some a" "a < length h"
      using reachable_valid[OF assms(1,2)] by blast
    then show ?thesis using assms(3) by simp
  qed
  from visit_all_total[of calls visit s, OF this] c show ?thesis by simp
qed

lemma buildEdges_import_ok:
  assumes "projection_ok s" "from \<noteq> ''''"
  shows "projection_ok (buildEdges_import h from imp s)"
proof -
  obtain edges nodes where s: "s = (edges, nodes)" by (cases s)
  define to where "to = modulePathOf h imp"
  show ?thesis
  proof (cases "to = '''' \<or> to = from")
    case True
    then show ?thesis using assms(1) by (simp add: buildEdges_import_def s to_def)
  next
    case False
    define edges1 where "edges1 = (if map_of edges from = None then AList.update from [] edges else edges)"
    define tos where "tos = set_insert to (edges_get edges1 from)"
    have r: "buildEdges_import h from imp (edges, nodes) =
        (AList.update from tos edges1, set_insert to nodes)"
      using False by (simp add: buildEdges_import_def to_def Let_def edges1_def tos_def)
    have old: "\<forall>e \<in> set edges. fst e \<noteq> '''' \<and> '''' \<notin> set (snd e) \<and> fst e \<notin> set (snd e)"
      using assms(1) by (simp add: projection_ok_def s)
    have e1: "\<forall>e \<in> set edges1. fst e \<noteq> '''' \<and> '''' \<notin> set (snd e) \<and> fst e \<notin> set (snd e)"
      using old assms(2) set_update_subset[of "from" "[]" edges] by (auto simp: edges1_def)
    have g: "'''' \<notin> set (edges_get edges1 from) \<and> from \<notin> set (edges_get edges1 from)"
      using edges_get_cases[of edges1 "from"] e1 by force
    have "\<forall>e \<in> set (AList.update from tos edges1).
            fst e \<noteq> '''' \<and> '''' \<notin> set (snd e) \<and> fst e \<notin> set (snd e)"
      using e1 g False assms(2) set_update_subset[of "from" tos edges1]
      by (auto simp: tos_def)
    then show ?thesis
      using assms(1) False unfolding s r by (auto simp: projection_ok_def)
  qed
qed

lemma fold_buildEdges_import_ok:
  "projection_ok s \<Longrightarrow> from \<noteq> '''' \<Longrightarrow> projection_ok (fold (buildEdges_import h from) imps s)"
  by (induction imps arbitrary: s) (simp_all add: buildEdges_import_ok)

lemma buildEdges_visit_ok:
  assumes "projection_ok s" "buildEdges_visit h p s = Inr s'"
  shows "projection_ok s'"
proof -
  obtain edges nodes where s: "s = (edges, nodes)" by (cases s)
  show ?thesis
  proof (cases "modulePathOf h p = ''''")
    case True
    then show ?thesis using assms by (simp add: buildEdges_visit_def s)
  next
    case False
    have "projection_ok (edges, set_insert (modulePathOf h p) nodes)"
      using assms(1) False by (auto simp: projection_ok_def s)
    from fold_buildEdges_import_ok[OF this False] assms(2) False show ?thesis
      by (auto simp: buildEdges_visit_def s Let_def split: sum.splits)
  qed
qed

lemma buildEdges_visit_total: "a < length h \<Longrightarrow> \<exists>s'. buildEdges_visit h (Some a) s = Inr s'"
  by (cases s) (simp add: buildEdges_visit_def deref_def Let_def)

lemma buildEdges_visit_skips:
  "modulePathOf h p = '''' \<Longrightarrow> buildEdges_visit h p s = Inr s"
  by (cases s) (simp add: buildEdges_visit_def)

lemma buildEdges_import_skips:
  "modulePathOf h imp = '''' \<or> modulePathOf h imp = from \<Longrightarrow> buildEdges_import h from imp s = s"
  by (cases s) (auto simp: buildEdges_import_def)

text \<open>
  C4. For every package graph, \<^verbatim>\<open>buildEdges\<close> returns a node set and an edge map in which
  no edge joins a module to itself and in which the empty identifier, which stands for a
  package without an owning module, is neither a node, nor the source of an edge, nor a
  target. On the way, the visitor leaves both maps as they are at a package without an
  owning module, and the loop over the imports leaves them as they are at an import
  without an owning module and at an import owned by the importing package's module.
\<close>

theorem buildEdges_no_self_loop_no_empty_module:
  assumes "heap_ok h" "roots_ok h pkgs"
  shows "\<exists>edges nodes. buildEdges h pkgs = Inr (edges, nodes) \<and>
           '''' \<notin> set nodes \<and>
           (\<forall>f t. t \<in> set (edges_get edges f) \<longrightarrow> f \<noteq> t \<and> f \<noteq> '''' \<and> t \<noteq> '''') \<and>
           (\<forall>e \<in> set edges. fst e \<noteq> '''' \<and> '''' \<notin> set (snd e) \<and> fst e \<notin> set (snd e)) \<and>
           (\<forall>p s. modulePathOf h p = '''' \<longrightarrow> buildEdges_visit h p s = Inr s) \<and>
           (\<forall>from imp s. modulePathOf h imp = '''' \<or> modulePathOf h imp = from \<longrightarrow>
              buildEdges_import h from imp s = s)"
proof -
  from traverse_total[OF assms, of "buildEdges_visit h" "([], [])"] buildEdges_visit_total
  obtain edges nodes where b: "buildEdges h pkgs = Inr (edges, nodes)"
    by (auto simp: buildEdges_def)
  have "projection_ok ([], [])" by (simp add: projection_ok_def)
  from traverse_invariant[of projection_ok "buildEdges_visit h", OF buildEdges_visit_ok this]
    b have ok: "projection_ok (edges, nodes)"
    by (simp add: buildEdges_def)
  have "f \<noteq> t \<and> f \<noteq> '''' \<and> t \<noteq> ''''" if "t \<in> set (edges_get edges f)" for f t
    using that edges_get_cases[of edges f] ok by (force simp: projection_ok_def)
  with b ok show ?thesis
    using buildEdges_visit_skips buildEdges_import_skips by (simp add: projection_ok_def)
qed

theorem buildEdges_no_self_loop_no_empty_module_witness:
  "heap_ok example_heap \<and> roots_ok example_heap [Some 5] \<and>
   buildEdges example_heap [Some 5] =
     Inr ([(''example.com/app'', [''example.com/lib'', ''example.com/testtool'']),
           (''example.com/lib'', [''example.com/app''])],
          [''example.com/app'', ''example.com/lib'', ''example.com/testtool''])"
proof -
  have r: "roots_ok example_heap [Some 5]"
    by (simp add: roots_ok_def example_heap_def)
  from buildEdges_no_self_loop_no_empty_module[OF example_heap_ok r]
  obtain edges nodes where "buildEdges example_heap [Some 5] = Inr (edges, nodes)" by blast
  moreover have "buildEdges example_heap [Some 5] =
     Inr ([(''example.com/app'', [''example.com/lib'', ''example.com/testtool'']),
           (''example.com/lib'', [''example.com/app''])],
          [''example.com/app'', ''example.com/lib'', ''example.com/testtool''])"
    by code_simp
  ultimately show ?thesis using r example_heap_ok by simp
qed


section \<open>Nil import entries\<close>

lemma deref_drop_nil:
  "deref (drop_nil_imports h) p =
     (case deref h p of
        Inl e \<Rightarrow> Inl e
      | Inr pkg \<Rightarrow> Inr (pkg\<lparr>Imports := filter (\<lambda>imp. imp \<noteq> None) (Imports pkg)\<rparr>))"
  by (simp add: deref_def drop_nil_imports_def split: option.splits)

lemma modulePathOf_nil: "modulePathOf h None = ''''"
  by (simp add: modulePathOf_def deref_def)

lemma modulePathOf_drop_nil: "modulePathOf (drop_nil_imports h) p = modulePathOf h p"
  by (simp add: modulePathOf_def deref_drop_nil split: sum.splits)

lemma buildEdges_import_nil: "buildEdges_import h from None s = s"
  by (cases s) (simp add: buildEdges_import_def modulePathOf_nil)

lemma buildEdges_import_drop_nil:
  "buildEdges_import (drop_nil_imports h) from = buildEdges_import h from"
  by (intro ext) (simp add: buildEdges_import_def modulePathOf_drop_nil)

lemma fold_buildEdges_import_filter:
  "fold (buildEdges_import h from) (filter (\<lambda>imp. imp \<noteq> None) imps) s =
   fold (buildEdges_import h from) imps s"
proof (induction imps arbitrary: s)
  case Nil
  then show ?case by simp
next
  case (Cons imp imps)
  then show ?case by (cases imp) (simp_all add: buildEdges_import_nil)
qed

lemma buildEdges_visit_drop_nil:
  "buildEdges_visit (drop_nil_imports h) p s = buildEdges_visit h p s"
proof -
  obtain edges nodes where s: "s = (edges, nodes)" by (cases s)
  show ?thesis
  proof (cases "deref h p")
    case (Inl e)
    then show ?thesis
      by (simp add: s buildEdges_visit_def modulePathOf_drop_nil deref_drop_nil Let_def)
  next
    case (Inr pkg)
    then show ?thesis
      using fold_buildEdges_import_filter[of h "modulePathOf h p" "Imports pkg"]
      by (simp add: s buildEdges_visit_def modulePathOf_drop_nil deref_drop_nil
          buildEdges_import_drop_nil Let_def)
  qed
qed

lemma loop_drop_nil:
  "loop (drop_nil_imports h) visit q seen s = loop h visit q seen s"
proof (induction h visit q seen s rule: loop.induct)
  case (1 h visit q seen s)
  show ?case
  proof (cases "q = []")
    case True
    then show ?thesis by (simp add: loop.simps)
  next
    case False
    show ?thesis
    proof (cases "last q \<in> seen")
      case True
      with False "1.IH"(1)[OF False refl refl True] show ?thesis
        by (subst (1 2) loop.simps) simp
    next
      case nseen: False
      show ?thesis
      proof (cases "visit (last q) s")
        case (Inl e)
        with False nseen show ?thesis by (subst (1 2) loop.simps) simp
      next
        case (Inr s1)
        show ?thesis
        proof (cases "deref h (last q)")
          case (Inl e)
          with False nseen Inr show ?thesis
            by (subst (1 2) loop.simps) (simp add: deref_drop_nil)
        next
          case d: (Inr pkg)
          from "1.IH"(2)[OF False refl refl nseen Inr d] False nseen Inr d show ?thesis
            by (subst (1 2) loop.simps) (simp add: deref_drop_nil)
        qed
      qed
    qed
  qed
qed

text \<open>
  C9. On every package graph whose import lists may hold nil entries, traversal and
  projection go through: \<open>traverse\<close> returns without a panic and never hands a nil pointer
  to the visitor (a nil entry that were pushed on the work list would be popped, found not
  yet seen, visited and dereferenced), \<open>modulePathOf\<close> of a nil package is the empty
  identifier, the loop body of \<open>buildEdges\<close> leaves its maps as they are at a nil import,
  \<open>buildEdges\<close> returns, and both functions yield what they yield on the graph without
  the nil entries.
\<close>

theorem nil_imports_are_skipped:
  assumes "heap_ok h" "roots_ok h roots"
  shows "(\<exists>calls. traverse h roots record_visit [] = Inr calls \<and> None \<notin> set calls) \<and>
         modulePathOf h None = '''' \<and>
         (\<forall>from s. buildEdges_import h from None s = s) \<and>
         (\<exists>r. buildEdges h roots = Inr r) \<and>
         (\<forall>(visit :: ptr \<Rightarrow> 's \<Rightarrow> error + 's) s.
            traverse h roots visit s = traverse (drop_nil_imports h) roots visit s) \<and>
         buildEdges h roots = buildEdges (drop_nil_imports h) roots"
proof -
  from traverse_calls[OF assms, where 's = unit] obtain calls where
    c: "traverse h roots record_visit [] = Inr calls" "set calls = reachable h roots"
    by blast
  have "None \<notin> set calls"
    using reachable_valid[OF assms, of None] c(2) by auto
  moreover have "\<exists>r. buildEdges h roots = Inr r"
    using traverse_total[OF assms, of "buildEdges_visit h" "([], [])"] buildEdges_visit_total
    by (auto simp: buildEdges_def)
  moreover have "buildEdges_visit (drop_nil_imports h) = buildEdges_visit h"
    by (intro ext) (rule buildEdges_visit_drop_nil)
  ultimately show ?thesis
    using c(1)
    by (simp add: modulePathOf_nil buildEdges_import_nil traverse_def buildEdges_def loop_drop_nil)
qed

theorem nil_imports_are_skipped_witness:
  "heap_ok example_heap \<and> roots_ok example_heap [Some 5] \<and>
   None \<in> set (Imports (example_heap ! 5)) \<and> None \<in> set (Imports (example_heap ! 0)) \<and>
   traverse example_heap [Some 5] record_visit []
     = Inr [Some 5, Some 2, Some 3, Some 4, Some 1, Some 0] \<and>
   buildEdges example_heap [Some 5] = buildEdges (drop_nil_imports example_heap) [Some 5]"
proof -
  have r: "roots_ok example_heap [Some 5]"
    by (simp add: roots_ok_def example_heap_def)
  have n: "None \<in> set (Imports (example_heap ! 5)) \<and> None \<in> set (Imports (example_heap ! 0))"
    by (simp add: example_heap_def)
  have t: "traverse example_heap [Some 5] record_visit []
     = Inr [Some 5, Some 2, Some 3, Some 4, Some 1, Some 0]"
    by code_simp
  from nil_imports_are_skipped[OF example_heap_ok r, where 's = unit] r n t example_heap_ok
  show ?thesis by simp
qed


section \<open>Properties of the renderer\<close>

subsection \<open>Sorting a map's keys forgets the order in which they were ranged over\<close>

lemma sort_same_strset: "same_strset m m' \<Longrightarrow> sort m = sort m'"
  unfolding same_strset_def strset_ok_def
  by (intro sorted_distinct_set_unique) simp_all

lemma all_nodes_same: "same_strset nodes nodes' \<Longrightarrow> all_nodes nodes = all_nodes nodes'"
  by (simp add: all_nodes_def sort_same_strset)

lemma strict_sorted_all_nodes: "strset_ok nodes \<Longrightarrow> sorted_wrt (<) (all_nodes nodes)"
  by (simp add: all_nodes_def strset_ok_def strict_sorted_iff)

lemma edges_get_distinct: "edgemap_ok edges \<Longrightarrow> distinct (edges_get edges f)"
  using edges_get_cases[of edges f] by (auto simp: edgemap_ok_def)

lemma edges_get_absent: "f \<notin> fst ` set edges \<Longrightarrow> edges_get edges f = []"
  using edges_get_cases[of edges f] by force

lemma edge_pairs_same:
  assumes "same_edgemap edges edges'"
  shows "edge_pairs edges = edge_pairs edges'"
proof -
  have ok: "edgemap_ok edges" "edgemap_ok edges'"
    and keys: "set (map fst edges) = set (map fst edges')"
    and tos: "\<forall>f \<in> set (map fst edges). set (edges_get edges f) = set (edges_get edges' f)"
    using assms unfolding same_edgemap_def by blast+
  have froms: "sort (map fst edges) = sort (map fst edges')"
    using ok keys by (intro sorted_distinct_set_unique) (simp_all add: edgemap_ok_def)
  have "sort (edges_get edges f) = sort (edges_get edges' f)" if "f \<in> set (map fst edges)" for f
  proof -
    from tos that have "set (edges_get edges f) = set (edges_get edges' f)" by (rule bspec)
    then show ?thesis
      using edges_get_distinct[OF ok(1), of f] edges_get_distinct[OF ok(2), of f]
      by (intro sorted_distinct_set_unique) simp_all
  qed
  then have m: "map (\<lambda>f. map (\<lambda>t. (f, t)) (sort (edges_get edges f))) (sort (map fst edges)) =
                map (\<lambda>f. map (\<lambda>t. (f, t)) (sort (edges_get edges' f))) (sort (map fst edges))"
    by (intro map_cong) simp_all
  show ?thesis
    by (simp only: edge_pairs_def Let_def froms[symmetric] m)
qed

lemma set_edge_pairs:
  "set (edge_pairs edges) = {(f, t). t \<in> set (edges_get edges f)}"
proof -
  have "f \<in> fst ` set edges" if "t \<in> set (edges_get edges f)" for f t
  proof (rule ccontr)
    assume "f \<notin> fst ` set edges"
    then have "edges_get edges f = []" by (rule edges_get_absent)
    with that show False by simp
  qed
  then show ?thesis
    by (fastforce simp: edge_pairs_def Let_def)
qed

lemma sorted_wrt_concat_blocks:
  assumes "sorted_wrt (<) fs" "\<And>f. f \<in> set fs \<Longrightarrow> sorted_wrt (<) (g f)"
  shows "sorted_wrt edge_before (concat (map (\<lambda>f. map (Pair f) (g f)) fs))"
  using assms
proof (induction fs)
  case Nil
  then show ?case by simp
next
  case (Cons f fs)
  have "sorted_wrt edge_before (map (Pair f) (g f))"
    using Cons.prems(2)[of f] by (simp add: sorted_wrt_map edge_before_def)
  moreover have "sorted_wrt edge_before (concat (map (\<lambda>f. map (Pair f) (g f)) fs))"
    using Cons by simp
  moreover have "\<forall>x \<in> set (map (Pair f) (g f)).
      \<forall>y \<in> set (concat (map (\<lambda>f. map (Pair f) (g f)) fs)). edge_before x y"
    using Cons.prems(1) by (auto simp: edge_before_def)
  ultimately show ?case by (simp add: sorted_wrt_append)
qed

lemma sorted_edge_pairs:
  assumes "edgemap_ok edges"
  shows "sorted_wrt edge_before (edge_pairs edges)"
proof -
  have "sorted_wrt (<) (sort (map fst edges))"
    using assms by (simp add: edgemap_ok_def strict_sorted_iff)
  moreover have "sorted_wrt (<) (sort (edges_get edges f))" for f
    using edges_get_distinct[OF assms, of f] by (simp add: strict_sorted_iff)
  ultimately show ?thesis
    unfolding edge_pairs_def Let_def by (intro sorted_wrt_concat_blocks)
qed

subsection \<open>The index of a node is its rank among the sorted identifiers\<close>

lemma fold_indexes_other:
  assumes "\<And>i name m. f (i, name) m = m(name \<mapsto> i)"
  shows "k \<notin> set xs \<Longrightarrow> fold f (enumerate n xs) m k = m k"
  by (induction xs arbitrary: n m) (auto simp: assms)

lemma fold_indexes_nth:
  assumes "\<And>i name m. f (i, name) m = m(name \<mapsto> i)"
  shows "distinct xs \<Longrightarrow> i < length xs \<Longrightarrow> fold f (enumerate n xs) m (xs ! i) = Some (n + i)"
proof (induction xs arbitrary: n m i)
  case Nil
  then show ?case by simp
next
  case (Cons x xs)
  show ?case
  proof (cases i)
    case 0
    then show ?thesis
      using Cons.prems(1) fold_indexes_other[of f x xs "Suc n" "m(x \<mapsto> n)", OF assms]
      by (simp add: assms)
  next
    case (Suc j)
    then show ?thesis using Cons.prems Cons.IH[of j "Suc n"] by (simp add: assms)
  qed
qed

lemma make_indexes_nth:
  "distinct xs \<Longrightarrow> i < length xs \<Longrightarrow> make_indexes xs (xs ! i) = Some i"
  using fold_indexes_nth[of "\<lambda>(i, name) indexes. indexes(name \<mapsto> i)" xs i 0 Map.empty]
  by (simp add: make_indexes_def)

lemma index_of_nth:
  "distinct xs \<Longrightarrow> i < length xs \<Longrightarrow> index_of (make_indexes xs) (xs ! i) = i"
  by (simp add: index_of_def make_indexes_nth)

lemma index_of_mono:
  assumes "sorted_wrt (<) xs" "a \<in> set xs" "b \<in> set xs"
  shows "index_of (make_indexes xs) a < index_of (make_indexes xs) b \<longleftrightarrow> a < b"
proof -
  have d: "distinct xs" using assms(1) by (simp add: strict_sorted_iff)
  from assms(2,3) obtain i j where ij: "i < length xs" "xs ! i = a" "j < length xs" "xs ! j = b"
    by (auto simp: in_set_conv_nth)
  have idx: "index_of (make_indexes xs) a = i" "index_of (make_indexes xs) b = j"
    using index_of_nth[OF d] ij by auto
  have "i < j \<longleftrightarrow> xs ! i < xs ! j"
  proof
    assume "i < j"
    then show "xs ! i < xs ! j" using assms(1) ij(3) by (simp add: sorted_wrt_nth_less)
  next
    assume l: "xs ! i < xs ! j"
    show "i < j"
    proof (rule ccontr)
      assume "\<not> i < j"
      then have "j = i \<or> j < i" by auto
      then show False
      proof
        assume "j = i" with l show False by simp
      next
        assume "j < i"
        then have "xs ! j < xs ! i" using assms(1) ij(1) by (simp add: sorted_wrt_nth_less)
        with l show False by simp
      qed
    qed
  qed
  then show ?thesis using idx ij by simp
qed

subsection \<open>The class lines read the test-only set through lookups only\<close>

lemma class_lines_same:
  "set testOnly = set testOnly' \<Longrightarrow>
   class_lines mainMod allNodes testOnly = class_lines mainMod allNodes testOnly'"
proof -
  assume t: "set testOnly = set testOnly'"
  have "choose_mainModule mainMod testOnly = choose_mainModule mainMod testOnly'"
    by (intro ext) (simp add: choose_mainModule_def)
  moreover have "choose_testOnlyDep mainMod testOnly = choose_testOnlyDep mainMod testOnly'"
    by (intro ext) (simp add: choose_testOnlyDep_def t)
  moreover have "choose_regularDep mainMod testOnly = choose_regularDep mainMod testOnly'"
    by (intro ext) (simp add: choose_regularDep_def t)
  ultimately show ?thesis by (simp add: class_lines_def)
qed

lemma main_go_class_lines_same:
  assumes "set testOnly = set testOnly'"
  shows "main_go_class_lines allNodes testOnly = main_go_class_lines allNodes testOnly'"
proof -
  have "testOnly = [] \<longleftrightarrow> testOnly' = []" using assms by (metis set_empty)
  then show ?thesis using assms by (simp add: main_go_class_lines_def main_go_members_def)
qed

text \<open>
  C2. Two runs of the renderer on the same node set, edge set, main module and test-only
  set, each map ranged over in whatever order, write the same bytes, in both revisions of
  \<^verbatim>\<open>writeDot\<close>. The indices follow the lexicographic order of the identifiers: the sorted
  node list is strictly ascending, the node at position \<open>i\<close> gets index \<open>i\<close>, and of two
  nodes the smaller identifier has the smaller index.
\<close>

theorem writeDot_deterministic:
  assumes "same_strset nodes nodes'" "same_strset testOnly testOnly'" "same_edgemap edges edges'"
  shows "writeDot quote mainMod edges nodes testOnly = writeDot quote mainMod edges' nodes' testOnly' \<and>
         main_go_writeDot quote edges nodes testOnly = main_go_writeDot quote edges' nodes' testOnly' \<and>
         sorted_wrt (<) (all_nodes nodes) \<and> set (all_nodes nodes) = set nodes \<and>
         (\<forall>i < length (all_nodes nodes).
            index_of (make_indexes (all_nodes nodes)) (all_nodes nodes ! i) = i) \<and>
         (\<forall>a \<in> set nodes. \<forall>b \<in> set nodes.
            (index_of (make_indexes (all_nodes nodes)) a < index_of (make_indexes (all_nodes nodes)) b)
              = (a < b))"
proof -
  have n: "all_nodes nodes = all_nodes nodes'" using assms(1) by (rule all_nodes_same)
  have e: "edge_pairs edges = edge_pairs edges'" using assms(3) by (rule edge_pairs_same)
  have t: "set testOnly = set testOnly'" using assms(2) by (simp add: same_strset_def)
  have ok: "strset_ok nodes" using assms(1) by (simp add: same_strset_def)
  have s: "sorted_wrt (<) (all_nodes nodes)" using ok by (rule strict_sorted_all_nodes)
  have d: "distinct (all_nodes nodes)" using s by (simp add: strict_sorted_iff)
  have st: "set (all_nodes nodes) = set nodes" by (simp add: all_nodes_def)
  have w: "writeDot quote mainMod edges nodes testOnly = writeDot quote mainMod edges' nodes' testOnly'"
    by (simp add: writeDot_def writeDot_lines_def Let_def edge_lines_def n e class_lines_same[OF t])
  have w0: "main_go_writeDot quote edges nodes testOnly = main_go_writeDot quote edges' nodes' testOnly'"
    by (simp add: main_go_writeDot_def main_go_writeDot_lines_def Let_def edge_lines_def n e
        main_go_class_lines_same[OF t])
  have i: "\<forall>i < length (all_nodes nodes).
            index_of (make_indexes (all_nodes nodes)) (all_nodes nodes ! i) = i"
    using index_of_nth[OF d] by simp
  have m: "\<forall>a \<in> set nodes. \<forall>b \<in> set nodes.
            (index_of (make_indexes (all_nodes nodes)) a < index_of (make_indexes (all_nodes nodes)) b)
              = (a < b)"
    using index_of_mono[OF s] st by simp
  from w w0 s st i m show ?thesis by blast
qed


theorem writeDot_deterministic_witness:
  "same_strset [''b'', ''a'', ''c''] [''a'', ''b'', ''c''] \<and>
   same_strset [''c''] [''c''] \<and>
   same_edgemap [(''b'', [''a'']), (''a'', [''c'', ''b''])] [(''a'', [''b'', ''c'']), (''b'', [''a''])] \<and>
   writeDot quote_plain ''a'' [(''b'', [''a'']), (''a'', [''c'', ''b''])] [''b'', ''a'', ''c''] [''c'']
     = writeDot quote_plain ''a'' [(''a'', [''b'', ''c'']), (''b'', [''a''])] [''a'', ''b'', ''c''] [''c''] \<and>
   index_of (make_indexes (all_nodes [''b'', ''a'', ''c''])) ''a''
     < index_of (make_indexes (all_nodes [''b'', ''a'', ''c''])) ''b''"
proof -
  have n: "same_strset [''b'', ''a'', ''c''] [''a'', ''b'', ''c'']"
    by (auto simp: same_strset_def strset_ok_def)
  have t: "same_strset [''c''] [''c'']"
    by (simp add: same_strset_def strset_ok_def)
  have e: "same_edgemap [(''b'', [''a'']), (''a'', [''c'', ''b''])] [(''a'', [''b'', ''c'']), (''b'', [''a''])]"
    by (auto simp: same_edgemap_def edgemap_ok_def edges_get_def)
  from writeDot_deterministic[OF n t e, of quote_plain "''a''"] n t e
  show ?thesis by simp
qed


subsection \<open>Edge lines\<close>

lemma sorted_wrt_irrefl_distinct:
  "(\<And>x. \<not> R x x) \<Longrightarrow> sorted_wrt R xs \<Longrightarrow> distinct xs"
  by (induction xs) auto

text \<open>
  C5. The edge lines are written for the pairs of \<open>edge_pairs\<close>, in its order, in both
  revisions. This sequence is strictly ascending by source and, within one source, by
  target, so the lines of one source are adjacent; it holds every edge of the map once;
  and it is the same for every order in which the outer and inner edge maps are ranged
  over.
\<close>

theorem edge_lines_sorted_by_source_then_target:
  assumes "edgemap_ok edges"
  shows "sorted_wrt edge_before (edge_pairs edges) \<and>
         distinct (edge_pairs edges) \<and>
         set (edge_pairs edges) = {(f, t). t \<in> set (edges_get edges f)} \<and>
         edge_lines indexes edges =
           map (\<lambda>(f, t). edge_line (index_of indexes f) (index_of indexes t)) (edge_pairs edges) \<and>
         (\<forall>edges'. same_edgemap edges edges' \<longrightarrow>
            edge_pairs edges' = edge_pairs edges \<and>
            edge_lines indexes edges' = edge_lines indexes edges) \<and>
         writeDot_lines quote mainMod edges nodes testOnly =
           [[CHR 0x60, CHR 0x60, CHR 0x60] @ ''mermaid'' @ nl, ''graph LR'' @ nl] @
           node_decls quote (all_nodes nodes) @
           edge_lines (make_indexes (all_nodes nodes)) edges @
           class_lines mainMod (all_nodes nodes) testOnly @
           [[CHR 0x60, CHR 0x60, CHR 0x60] @ nl] \<and>
         main_go_writeDot_lines quote edges nodes testOnly =
           [''graph LR'' @ nl] @
           node_decls quote (all_nodes nodes) @
           edge_lines (make_indexes (all_nodes nodes)) edges @
           main_go_class_lines (all_nodes nodes) testOnly"
proof -
  have s: "sorted_wrt edge_before (edge_pairs edges)"
    using assms by (rule sorted_edge_pairs)
  have d: "distinct (edge_pairs edges)"
    by (rule sorted_wrt_irrefl_distinct[OF _ s]) (simp add: edge_before_def)
  have i: "\<forall>edges'. same_edgemap edges edges' \<longrightarrow>
            edge_pairs edges' = edge_pairs edges \<and>
            edge_lines indexes edges' = edge_lines indexes edges"
    using edge_pairs_same by (simp add: edge_lines_def)
  show ?thesis
    using s d i
    by (simp add: set_edge_pairs edge_lines_def writeDot_lines_def main_go_writeDot_lines_def Let_def)
qed

theorem edge_lines_sorted_by_source_then_target_witness:
  "edgemap_ok [(''b'', [''a'']), (''a'', [''c'', ''b''])] \<and>
   same_edgemap [(''b'', [''a'']), (''a'', [''c'', ''b''])] [(''a'', [''b'', ''c'']), (''b'', [''a''])] \<and>
   edge_pairs [(''b'', [''a'']), (''a'', [''c'', ''b''])] = [(''a'', ''b''), (''a'', ''c''), (''b'', ''a'')] \<and>
   edge_pairs [(''a'', [''b'', ''c'']), (''b'', [''a''])] = [(''a'', ''b''), (''a'', ''c''), (''b'', ''a'')] \<and>
   sorted_wrt edge_before (edge_pairs [(''b'', [''a'']), (''a'', [''c'', ''b''])])"
proof -
  have ok: "edgemap_ok [(''b'', [''a'']), (''a'', [''c'', ''b''])]"
    by (simp add: edgemap_ok_def)
  have e: "same_edgemap [(''b'', [''a'']), (''a'', [''c'', ''b''])] [(''a'', [''b'', ''c'']), (''b'', [''a''])]"
    by (auto simp: same_edgemap_def edgemap_ok_def edges_get_def)
  have p: "edge_pairs [(''b'', [''a'']), (''a'', [''c'', ''b''])] = [(''a'', ''b''), (''a'', ''c''), (''b'', ''a'')]"
    by (simp add: edge_pairs_def edges_get_def)
  from edge_lines_sorted_by_source_then_target[OF ok, of Map.empty quote_plain "[]" "[]" "[]"] e p ok
  show ?thesis by simp
qed

subsection \<open>Classes\<close>

lemma atoi_snoc: "atoi (s @ [c]) = 10 * atoi s + digit_val c"
  by (simp add: atoi_def)

lemma digit_val_digit_char: "d < 10 \<Longrightarrow> digit_val (digit_char d) = d"
  by (simp add: digit_val_def digit_char_def of_char_of)

lemma atoi_itoa: "atoi (itoa n) = n"
proof (induction n rule: itoa.induct)
  case (1 n)
  show ?case
  proof (cases "n < 10")
    case True
    then show ?thesis
      by (subst itoa.simps) (simp add: atoi_def digit_val_digit_char)
  next
    case False
    then show ?thesis
      using "1.IH" by (subst itoa.simps) (simp add: atoi_snoc digit_val_digit_char)
  qed
qed

lemma node_id_inject: "node_id i = node_id j \<longleftrightarrow> i = j"
proof
  assume "node_id i = node_id j"
  then have "atoi (itoa i) = atoi (itoa j)" by (simp add: node_id_def)
  then show "i = j" by (simp add: atoi_itoa)
qed simp

lemma node_id_in_selected:
  "node_id i \<in> set (selected allNodes chosen) \<longleftrightarrow> i < length allNodes \<and> chosen (allNodes ! i)"
  by (auto simp: selected_def in_set_enumerate_eq node_id_inject image_iff)

lemma distinct_selected: "distinct (selected allNodes chosen)"
proof -
  have "distinct (map fst (filter (\<lambda>(i, name). chosen name) (enumerate 0 allNodes)))"
    by (rule distinct_map_filter) simp
  then have d: "distinct (map (node_id \<circ> fst) (filter (\<lambda>(i, name). chosen name) (enumerate 0 allNodes)))"
    unfolding map_map[symmetric] by (simp add: distinct_map inj_on_def node_id_inject)
  have eq: "(\<lambda>(i, name). node_id i) = node_id \<circ> fst" by auto
  show ?thesis unfolding selected_def eq by (rule d)
qed

lemma selected_empty:
  "selected allNodes chosen = [] \<longleftrightarrow> (\<forall>name \<in> set allNodes. \<not> chosen name)"
proof -
  have "selected allNodes chosen = [] \<longleftrightarrow> (\<forall>p \<in> set (enumerate 0 allNodes). \<not> chosen (snd p))"
    by (auto simp: selected_def filter_empty_conv)
  also have "\<dots> \<longleftrightarrow> (\<forall>name \<in> snd ` set (enumerate 0 allNodes). \<not> chosen name)"
    by auto
  also have "snd ` set (enumerate 0 allNodes) = set allNodes"
    by (metis map_snd_enumerate set_map)
  finally show ?thesis .
qed

lemma nodeColor_empty_group:
  "(\<forall>name \<in> set allNodes. \<not> chosen name) \<Longrightarrow> nodeColor allNodes className color chosen = []"
  by (simp add: nodeColor_def selected_empty)

lemma nodeColor_writes_members:
  "nodeColor allNodes className color chosen =
     (if selected allNodes chosen = [] then []
      else [''    classDef '' @ className @ '' fill:'' @ color @ '',stroke:#333,stroke-width:1px;'' @ nl,
            ''    class '' @ join '','' (selected allNodes chosen) @ '' '' @ className @ '';'' @ nl])"
  by (simp add: nodeColor_def)

lemma class_line_in_nodeColor:
  assumes "node_id i \<in> set (selected allNodes chosen)"
  shows "''    class '' @ join '','' (selected allNodes chosen) @ '' '' @ className @ '';'' @ nl
           \<in> set (nodeColor allNodes className color chosen)"
proof -
  from assms have "selected allNodes chosen \<noteq> []" by auto
  then show ?thesis by (simp add: nodeColor_writes_members)
qed

lemma class_lines_in_writeDot_lines:
  "set (class_lines mainMod (all_nodes nodes) testOnly)
     \<subseteq> set (writeDot_lines quote mainMod edges nodes testOnly)"
  by (auto simp: writeDot_lines_def Let_def)

lemma join_single: "join sep [e] = e"
  by (simp add: join_def)

lemma join_Cons: "join sep (e # e' # es) = e @ sep @ join sep (e' # es)"
  by (simp add: join_def)

text \<open>
  C6. In the revision with three classes, \<^verbatim>\<open>nodeColor\<close> writes for a group with members
  its \<^verbatim>\<open>classDef\<close> line and one \<^verbatim>\<open>class\<close> line that lists the members' node indices,
  and the class lines of the output are those of the groups \<^verbatim>\<open>mainModule\<close>,
  \<^verbatim>\<open>testOnlyDep\<close> and \<^verbatim>\<open>regularDep\<close>, in this order. The index of every rendered node
  is a member of exactly one of the three groups: of \<^verbatim>\<open>mainModule\<close> when the node is the
  main module, whether or not it is in the test-only set; otherwise of \<^verbatim>\<open>testOnlyDep\<close>
  when it is in the test-only set; otherwise of \<^verbatim>\<open>regularDep\<close>. The \<^verbatim>\<open>class\<close> line of
  that group, which lists the node, is among the class lines, and so in the output of
  \<^verbatim>\<open>writeDot\<close>.
\<close>

theorem one_class_per_node_by_precedence:
  assumes "i < length allNodes"
  shows "(node_id i \<in> set (selected allNodes (choose_mainModule mainMod testOnly))
            \<longleftrightarrow> allNodes ! i = mainMod) \<and>
         (node_id i \<in> set (selected allNodes (choose_testOnlyDep mainMod testOnly))
            \<longleftrightarrow> allNodes ! i \<noteq> mainMod \<and> allNodes ! i \<in> set testOnly) \<and>
         (node_id i \<in> set (selected allNodes (choose_regularDep mainMod testOnly))
            \<longleftrightarrow> allNodes ! i \<noteq> mainMod \<and> allNodes ! i \<notin> set testOnly) \<and>
         length (filter (\<lambda>members. node_id i \<in> set members)
                   [selected allNodes (choose_mainModule mainMod testOnly),
                    selected allNodes (choose_testOnlyDep mainMod testOnly),
                    selected allNodes (choose_regularDep mainMod testOnly)]) = 1 \<and>
         (allNodes ! i = mainMod \<and> allNodes ! i \<in> set testOnly \<longrightarrow>
            node_id i \<in> set (selected allNodes (choose_mainModule mainMod testOnly)) \<and>
            node_id i \<notin> set (selected allNodes (choose_testOnlyDep mainMod testOnly))) \<and>
         class_lines mainMod allNodes testOnly =
           nodeColor allNodes ''mainModule'' mainColor (choose_mainModule mainMod testOnly) @
           nodeColor allNodes ''testOnlyDep'' testColor (choose_testOnlyDep mainMod testOnly) @
           nodeColor allNodes ''regularDep'' nonTestColor (choose_regularDep mainMod testOnly) \<and>
         (\<forall>className color chosen.
            nodeColor allNodes className color chosen =
              (if selected allNodes chosen = [] then []
               else [''    classDef '' @ className @ '' fill:'' @ color @
                       '',stroke:#333,stroke-width:1px;'' @ nl,
                     ''    class '' @ join '','' (selected allNodes chosen) @ '' '' @ className @
                       '';'' @ nl])) \<and>
         (allNodes ! i = mainMod \<longrightarrow>
            ''    class '' @ join '','' (selected allNodes (choose_mainModule mainMod testOnly)) @
              '' mainModule;'' @ nl \<in> set (class_lines mainMod allNodes testOnly)) \<and>
         (allNodes ! i \<noteq> mainMod \<and> allNodes ! i \<in> set testOnly \<longrightarrow>
            ''    class '' @ join '','' (selected allNodes (choose_testOnlyDep mainMod testOnly)) @
              '' testOnlyDep;'' @ nl \<in> set (class_lines mainMod allNodes testOnly)) \<and>
         (allNodes ! i \<noteq> mainMod \<and> allNodes ! i \<notin> set testOnly \<longrightarrow>
            ''    class '' @ join '','' (selected allNodes (choose_regularDep mainMod testOnly)) @
              '' regularDep;'' @ nl \<in> set (class_lines mainMod allNodes testOnly)) \<and>
         (\<forall>quote edges nodes. all_nodes nodes = allNodes \<longrightarrow>
            set (class_lines mainMod allNodes testOnly)
              \<subseteq> set (writeDot_lines quote mainMod edges nodes testOnly))"
proof -
  let ?M = "selected allNodes (choose_mainModule mainMod testOnly)"
  let ?T = "selected allNodes (choose_testOnlyDep mainMod testOnly)"
  let ?R = "selected allNodes (choose_regularDep mainMod testOnly)"
  have m: "node_id i \<in> set ?M \<longleftrightarrow> allNodes ! i = mainMod"
    and t: "node_id i \<in> set ?T \<longleftrightarrow> allNodes ! i \<noteq> mainMod \<and> allNodes ! i \<in> set testOnly"
    and r: "node_id i \<in> set ?R \<longleftrightarrow> allNodes ! i \<noteq> mainMod \<and> allNodes ! i \<notin> set testOnly"
    using assms
    by (auto simp: node_id_in_selected choose_mainModule_def choose_testOnlyDep_def
        choose_regularDep_def)
  have one: "length (filter (\<lambda>members. node_id i \<in> set members) [?M, ?T, ?R]) = 1"
    using m t r by auto
  have both: "allNodes ! i = mainMod \<and> allNodes ! i \<in> set testOnly \<longrightarrow>
      node_id i \<in> set ?M \<and> node_id i \<notin> set ?T"
    using m t by auto
  have cl: "class_lines mainMod allNodes testOnly =
      nodeColor allNodes ''mainModule'' mainColor (choose_mainModule mainMod testOnly) @
      nodeColor allNodes ''testOnlyDep'' testColor (choose_testOnlyDep mainMod testOnly) @
      nodeColor allNodes ''regularDep'' nonTestColor (choose_regularDep mainMod testOnly)"
    by (simp add: class_lines_def)
  have nc: "\<forall>className color chosen.
      nodeColor allNodes className color chosen =
        (if selected allNodes chosen = [] then []
         else [''    classDef '' @ className @ '' fill:'' @ color @
                 '',stroke:#333,stroke-width:1px;'' @ nl,
               ''    class '' @ join '','' (selected allNodes chosen) @ '' '' @ className @
                 '';'' @ nl])"
    by (intro allI) (rule nodeColor_writes_members)
  have lm: "allNodes ! i = mainMod \<longrightarrow>
      ''    class '' @ join '','' ?M @ '' mainModule;'' @ nl
        \<in> set (class_lines mainMod allNodes testOnly)"
  proof
    assume "allNodes ! i = mainMod"
    with m have "node_id i \<in> set ?M" by simp
    from class_line_in_nodeColor[OF this, of "''mainModule''" mainColor]
    show "''    class '' @ join '','' ?M @ '' mainModule;'' @ nl
        \<in> set (class_lines mainMod allNodes testOnly)"
      unfolding cl by simp
  qed
  have lt: "allNodes ! i \<noteq> mainMod \<and> allNodes ! i \<in> set testOnly \<longrightarrow>
      ''    class '' @ join '','' ?T @ '' testOnlyDep;'' @ nl
        \<in> set (class_lines mainMod allNodes testOnly)"
  proof
    assume "allNodes ! i \<noteq> mainMod \<and> allNodes ! i \<in> set testOnly"
    with t have "node_id i \<in> set ?T" by simp
    from class_line_in_nodeColor[OF this, of "''testOnlyDep''" testColor]
    show "''    class '' @ join '','' ?T @ '' testOnlyDep;'' @ nl
        \<in> set (class_lines mainMod allNodes testOnly)"
      unfolding cl by simp
  qed
  have lr: "allNodes ! i \<noteq> mainMod \<and> allNodes ! i \<notin> set testOnly \<longrightarrow>
      ''    class '' @ join '','' ?R @ '' regularDep;'' @ nl
        \<in> set (class_lines mainMod allNodes testOnly)"
  proof
    assume "allNodes ! i \<noteq> mainMod \<and> allNodes ! i \<notin> set testOnly"
    with r have "node_id i \<in> set ?R" by simp
    from class_line_in_nodeColor[OF this, of "''regularDep''" nonTestColor]
    show "''    class '' @ join '','' ?R @ '' regularDep;'' @ nl
        \<in> set (class_lines mainMod allNodes testOnly)"
      unfolding cl by simp
  qed
  have w: "\<forall>quote edges nodes. all_nodes nodes = allNodes \<longrightarrow>
      set (class_lines mainMod allNodes testOnly)
        \<subseteq> set (writeDot_lines quote mainMod edges nodes testOnly)"
    using class_lines_in_writeDot_lines by blast
  from m t r one both cl nc lm lt lr w show ?thesis by blast
qed

theorem one_class_per_node_by_precedence_witness:
  "(0::nat) < length [''app'', ''lib'', ''tool''] \<and>
   selected [''app'', ''lib'', ''tool''] (choose_mainModule ''app'' [''tool'', ''app'']) = [''N0''] \<and>
   selected [''app'', ''lib'', ''tool''] (choose_testOnlyDep ''app'' [''tool'', ''app'']) = [''N2''] \<and>
   selected [''app'', ''lib'', ''tool''] (choose_regularDep ''app'' [''tool'', ''app'']) = [''N1''] \<and>
   node_id 0 \<in> set (selected [''app'', ''lib'', ''tool''] (choose_mainModule ''app'' [''tool'', ''app''])) \<and>
   node_id 0 \<notin> set (selected [''app'', ''lib'', ''tool''] (choose_testOnlyDep ''app'' [''tool'', ''app''])) \<and>
   class_lines ''app'' [''app'', ''lib'', ''tool''] [''tool'', ''app''] =
     [''    classDef mainModule fill:#ddffdd,stroke:#333,stroke-width:1px;'' @ nl,
      ''    class N0 mainModule;'' @ nl,
      ''    classDef testOnlyDep fill:#ffdddd,stroke:#333,stroke-width:1px;'' @ nl,
      ''    class N2 testOnlyDep;'' @ nl,
      ''    classDef regularDep fill:#ececff,stroke:#333,stroke-width:1px;'' @ nl,
      ''    class N1 regularDep;'' @ nl] \<and>
   ''    class N0 mainModule;'' @ nl
     \<in> set (class_lines ''app'' [''app'', ''lib'', ''tool''] [''tool'', ''app'']) \<and>
   class_lines ''app'' [''a'', ''app'', ''b'', ''c''] [''c'', ''a''] =
     [''    classDef mainModule fill:#ddffdd,stroke:#333,stroke-width:1px;'' @ nl,
      ''    class N1 mainModule;'' @ nl,
      ''    classDef testOnlyDep fill:#ffdddd,stroke:#333,stroke-width:1px;'' @ nl,
      ''    class N0,N3 testOnlyDep;'' @ nl,
      ''    classDef regularDep fill:#ececff,stroke:#333,stroke-width:1px;'' @ nl,
      ''    class N2 regularDep;'' @ nl]"
proof -
  have l: "(0::nat) < length [''app'', ''lib'', ''tool'']" by simp
  have s: "selected [''app'', ''lib'', ''tool''] (choose_mainModule ''app'' [''tool'', ''app'']) = [''N0'']"
    "selected [''app'', ''lib'', ''tool''] (choose_testOnlyDep ''app'' [''tool'', ''app'']) = [''N2'']"
    "selected [''app'', ''lib'', ''tool''] (choose_regularDep ''app'' [''tool'', ''app'']) = [''N1'']"
    by code_simp+
  have c: "class_lines ''app'' [''app'', ''lib'', ''tool''] [''tool'', ''app''] =
     [''    classDef mainModule fill:#ddffdd,stroke:#333,stroke-width:1px;'' @ nl,
      ''    class N0 mainModule;'' @ nl,
      ''    classDef testOnlyDep fill:#ffdddd,stroke:#333,stroke-width:1px;'' @ nl,
      ''    class N2 testOnlyDep;'' @ nl,
      ''    classDef regularDep fill:#ececff,stroke:#333,stroke-width:1px;'' @ nl,
      ''    class N1 regularDep;'' @ nl]"
    by code_simp
  have c2: "class_lines ''app'' [''a'', ''app'', ''b'', ''c''] [''c'', ''a''] =
     [''    classDef mainModule fill:#ddffdd,stroke:#333,stroke-width:1px;'' @ nl,
      ''    class N1 mainModule;'' @ nl,
      ''    classDef testOnlyDep fill:#ffdddd,stroke:#333,stroke-width:1px;'' @ nl,
      ''    class N0,N3 testOnlyDep;'' @ nl,
      ''    classDef regularDep fill:#ececff,stroke:#333,stroke-width:1px;'' @ nl,
      ''    class N2 regularDep;'' @ nl]"
    by code_simp
  have j: "join '','' [''N0''] = ''N0''" by (simp add: join_def)
  from one_class_per_node_by_precedence[OF l, of "''app''" "[''tool'', ''app'']"] s c c2 j
  show ?thesis by simp
qed

text \<open>
  C7. In the revision with three classes a group without members writes nothing (see
  \<open>nodeColor_empty_group\<close>). The revision of \<^verbatim>\<open>src/main.go\<close> writes the
  \<^verbatim>\<open>classDef red\<close> line before it looks at the test-only set: with an empty test-only set
  the style declaration of the group is still in the output.
\<close>

theorem main_go_writeDot_declares_empty_class:
  "main_go_class_lines (all_nodes [''example.com/app'']) [] =
     [''    classDef red fill:#ffdddd,stroke:#333,stroke-width:1px;'' @ nl] \<and>
   main_go_writeDot quote_plain [] [''example.com/app''] [] =
     ''graph LR'' @ nl @
     ''    N0['' @ [CHR 0x22] @ ''example.com/app'' @ [CHR 0x22] @ '']'' @ nl @
     ''    classDef red fill:#ffdddd,stroke:#333,stroke-width:1px;'' @ nl \<and>
   class_lines ''example.com/app'' (all_nodes [''example.com/app'']) [] =
     [''    classDef mainModule fill:#ddffdd,stroke:#333,stroke-width:1px;'' @ nl,
      ''    class N0 mainModule;'' @ nl]"
  by code_simp


section \<open>Properties of the program\<close>

subsection \<open>Resolver errors\<close>

lemma log_output_nonempty: "log_output s \<noteq> []"
  by (auto simp: log_output_def nl_def)

lemma load_checked_err:
  "load_err (resolve t pat) = Some e \<Longrightarrow>
   load_checked resolve t pat =
     Inl (Fatal (log_output (''packages.Load (Tests='' @ show_bool t @ ''): '' @ e)))"
  by (simp add: load_checked_def)

lemma load_checked_errors:
  "load_err (resolve t pat) = None \<Longrightarrow> load_errors (resolve t pat) \<noteq> [] \<Longrightarrow>
   load_checked resolve t pat =
     Inl (Fatal (concat (map (\<lambda>e. e @ nl) (load_errors (resolve t pat))) @
                 log_output ''aborting due to previous errors''))"
  by (simp add: load_checked_def PrintErrors_def)

lemma load_checked_ok:
  "\<not> reports_error (resolve t pat) \<Longrightarrow> load_checked resolve t pat = Inr (load_pkgs (resolve t pat))"
  by (simp add: load_checked_def PrintErrors_def reports_error_def)

lemma load_checked_fatal:
  assumes "reports_error (resolve t pat)"
  shows "\<exists>msg. msg \<noteq> [] \<and> load_checked resolve t pat = Inl (Fatal msg)"
proof (cases "load_err (resolve t pat)")
  case None
  with assms have "load_errors (resolve t pat) \<noteq> []" by (simp add: reports_error_def)
  from load_checked_errors[of resolve t pat, OF None this] show ?thesis
    by (simp add: log_output_nonempty)
next
  case (Some e)
  from load_checked_err[of resolve t pat e, OF this] show ?thesis
    by (simp add: log_output_nonempty)
qed

lemma loadModuleSet_visit_total:
  "a < length h \<Longrightarrow> \<exists>s'. loadModuleSet_visit h (Some a) s = Inr s'"
  by (cases s) (simp add: loadModuleSet_visit_def deref_def split: option.splits)

lemma main_go_visit_total:
  "a < length h \<Longrightarrow> \<exists>s'. main_go_visit h (Some a) s = Inr s'"
  by (simp add: main_go_visit_def deref_def split: option.splits)

lemma loadModuleSet_ok:
  assumes "\<not> reports_error (resolve t pat)" "heap_ok h" "roots_ok h (load_pkgs (resolve t pat))"
  shows "\<exists>r. loadModuleSet h resolve t pat = Inr r"
proof -
  from traverse_total[OF assms(2,3), of "loadModuleSet_visit h" "('''', [])"]
    loadModuleSet_visit_total
  obtain s' where "traverse h (load_pkgs (resolve t pat)) (loadModuleSet_visit h) ('''', []) = Inr s'"
    by blast
  then show ?thesis
    by (cases s') (simp add: loadModuleSet_def load_checked_ok[of resolve t pat, OF assms(1)])
qed

lemma loadPkgsAndModuleSet_ok:
  assumes "\<not> reports_error (resolve t pat)" "heap_ok h" "roots_ok h (load_pkgs (resolve t pat))"
  shows "\<exists>r. loadPkgsAndModuleSet h resolve t pat = Inr r"
proof -
  from traverse_total[OF assms(2,3), of "main_go_visit h" "[]"] main_go_visit_total
  obtain s' where "traverse h (load_pkgs (resolve t pat)) (main_go_visit h) [] = Inr s'"
    by blast
  then show ?thesis
    by (simp add: loadPkgsAndModuleSet_def load_checked_ok[of resolve t pat, OF assms(1)])
qed

lemma main_fatal_first:
  assumes "load_checked resolve False ''all'' = Inl (Fatal msg)"
  shows "main h quote resolve = Inl (Fatal msg) \<and> main_go_main h quote resolve = Inl (Fatal msg)"
  using assms
  by (simp add: main_def main_graph_def loadModuleSet_def main_go_main_def main_go_graph_def
      main_go_loadModuleSet_def loadPkgsAndModuleSet_def)

lemma main_fatal_second:
  assumes "\<not> reports_error (resolve False ''all'')" "heap_ok h"
    "roots_ok h (load_pkgs (resolve False ''all''))"
    "load_checked resolve True ''all'' = Inl (Fatal msg)"
  shows "main h quote resolve = Inl (Fatal msg) \<and> main_go_main h quote resolve = Inl (Fatal msg)"
proof -
  from loadModuleSet_ok[of resolve False "''all''" h, OF assms(1-3)] obtain mainMod pkgs mods where
    "loadModuleSet h resolve False ''all'' = Inr (mainMod, pkgs, mods)"
    by (metis prod_cases3)
  moreover from loadPkgsAndModuleSet_ok[of resolve False "''all''" h, OF assms(1-3)] obtain pkgs' mods' where
    "loadPkgsAndModuleSet h resolve False ''all'' = Inr (pkgs', mods')"
    by (metis surj_pair)
  moreover have "loadModuleSet h resolve True ''all'' = Inl (Fatal msg)"
    "loadPkgsAndModuleSet h resolve True ''all'' = Inl (Fatal msg)"
    using assms(4) by (simp_all add: loadModuleSet_def loadPkgsAndModuleSet_def)
  ultimately show ?thesis
    by (simp add: main_def main_graph_def main_go_main_def main_go_graph_def
        main_go_loadModuleSet_def)
qed

text \<open>
  C8. When the load without tests reports an error, or when it goes through and the load
  with tests reports one, both revisions of the program end in \<^verbatim>\<open>log.Fatal\<close>: the exit
  status is 1, standard error holds the message \<open>msg\<close> of the first load that fails (the
  error of \<^verbatim>\<open>packages.Load\<close>, or the printed package errors followed by the abort
  message; the load with tests is the first to fail exactly when the load without tests
  reports no error), and nothing has been written to standard output.
\<close>

theorem resolver_error_is_fatal:
  assumes "reports_error (resolve False ''all'') \<or>
           (heap_ok h \<and> roots_ok h (load_pkgs (resolve False ''all'')) \<and>
            reports_error (resolve True ''all''))"
  shows "\<exists>msg. msg \<noteq> [] \<and>
           load_checked resolve (\<not> reports_error (resolve False ''all'')) ''all'' = Inl (Fatal msg) \<and>
           main h quote resolve = Inl (Fatal msg) \<and>
           main_go_main h quote resolve = Inl (Fatal msg) \<and>
           outcome_of (main h quote resolve) = \<lparr>stdout = [], stderr = msg, exit_status = 1\<rparr> \<and>
           outcome_of (main_go_main h quote resolve) = \<lparr>stdout = [], stderr = msg, exit_status = 1\<rparr>"
proof (cases "reports_error (resolve False ''all'')")
  case True
  from load_checked_fatal[of resolve False "''all''", OF True] obtain msg where
    m: "msg \<noteq> []" "load_checked resolve False ''all'' = Inl (Fatal msg)" by blast
  from main_fatal_first[OF m(2), of h quote] m True show ?thesis
    by (intro exI[of _ msg]) (simp add: outcome_of_def)
next
  case False
  with assms have a: "heap_ok h" "roots_ok h (load_pkgs (resolve False ''all''))"
    "reports_error (resolve True ''all'')" by auto
  from load_checked_fatal[of resolve True "''all''", OF a(3)] obtain msg where
    m: "msg \<noteq> []" "load_checked resolve True ''all'' = Inl (Fatal msg)" by blast
  from main_fatal_second[OF False a(1,2) m(2), of quote] m False show ?thesis
    by (intro exI[of _ msg]) (simp add: outcome_of_def)
qed

theorem resolver_error_is_fatal_witness:
  "\<not> reports_error (failing_resolver False ''all'') \<and>
   heap_ok example_heap \<and> roots_ok example_heap (load_pkgs (failing_resolver False ''all'')) \<and>
   reports_error (failing_resolver True ''all'') \<and>
   outcome_of (main example_heap quote_plain failing_resolver) =
     \<lparr>stdout = [],
      stderr = ''app_test.go:3:8: could not import example.com/testtool'' @ nl @
               ''aborting due to previous errors'' @ nl,
      exit_status = 1\<rparr>"
proof -
  have n: "\<not> reports_error (failing_resolver False ''all'')"
    and y: "reports_error (failing_resolver True ''all'')"
    by (simp_all add: reports_error_def failing_resolver_def)
  have r: "roots_ok example_heap (load_pkgs (failing_resolver False ''all''))"
    by (simp add: roots_ok_def failing_resolver_def example_heap_def)
  have l: "load_checked failing_resolver True ''all'' =
      Inl (Fatal (''app_test.go:3:8: could not import example.com/testtool'' @ nl @
                  ''aborting due to previous errors'' @ nl))"
    by (simp add: load_checked_def failing_resolver_def PrintErrors_def log_output_def nl_def)
  from resolver_error_is_fatal[of failing_resolver example_heap quote_plain] n y r example_heap_ok l
  show ?thesis by auto
qed

subsection \<open>The maps that \<^verbatim>\<open>main\<close> hands to the renderer\<close>


subsection \<open>The maps that the program hands to the renderer\<close>

lemma edgemap_ok_update:
  assumes "edgemap_ok edges" "distinct tos"
  shows "edgemap_ok (AList.update f tos edges)"
proof -
  have "\<forall>e \<in> set (AList.update f tos edges). distinct (snd e)"
    using assms set_update_subset[of f tos edges] by (auto simp: edgemap_ok_def)
  with assms(1) show ?thesis by (simp add: edgemap_ok_def distinct_update)
qed

lemma buildEdges_import_repr_ok:
  assumes "repr_ok s"
  shows "repr_ok (buildEdges_import h from imp s)"
proof -
  obtain edges nodes where s: "s = (edges, nodes)" by (cases s)
  have e: "edgemap_ok edges" and n: "strset_ok nodes" using assms by (simp_all add: repr_ok_def s)
  define edges1 where "edges1 = (if map_of edges from = None then AList.update from [] edges else edges)"
  have e1: "edgemap_ok edges1" using e by (simp add: edges1_def edgemap_ok_update)
  have "edgemap_ok (AList.update from (set_insert (modulePathOf h imp) (edges_get edges1 from)) edges1)"
    using e1 edges_get_distinct[OF e1, of "from"] by (simp add: edgemap_ok_update)
  then show ?thesis
    using e n by (simp add: s buildEdges_import_def Let_def repr_ok_def strset_ok_def edges1_def)
qed

lemma fold_buildEdges_import_repr_ok:
  "repr_ok s \<Longrightarrow> repr_ok (fold (buildEdges_import h from) imps s)"
  by (induction imps arbitrary: s) (simp_all add: buildEdges_import_repr_ok)

lemma buildEdges_visit_repr_ok:
  assumes "repr_ok s" "buildEdges_visit h p s = Inr s'"
  shows "repr_ok s'"
proof -
  obtain edges nodes where s: "s = (edges, nodes)" by (cases s)
  have "repr_ok (edges, set_insert (modulePathOf h p) nodes)"
    using assms(1) by (simp add: repr_ok_def s strset_ok_def)
  from fold_buildEdges_import_repr_ok[OF this] assms show ?thesis
    by (auto simp: buildEdges_visit_def s Let_def split: sum.splits if_splits)
qed

lemma buildEdges_repr_ok:
  assumes "buildEdges h pkgs = Inr (edges, nodes)"
  shows "edgemap_ok edges \<and> strset_ok nodes"
proof -
  have "repr_ok (edges, nodes)"
  proof (rule traverse_invariant[where I = repr_ok and visit = "buildEdges_visit h"])
    show "repr_ok s'" if "repr_ok s" "buildEdges_visit h p s = Inr s'" for p s s'
      using that by (rule buildEdges_visit_repr_ok)
    show "repr_ok ([], [])" by (simp add: repr_ok_def edgemap_ok_def strset_ok_def)
    show "traverse h pkgs (buildEdges_visit h) ([], []) = Inr (edges, nodes)"
      using assms by (simp add: buildEdges_def)
  qed
  then show ?thesis by (simp add: repr_ok_def)
qed

lemma main_graph_args:
  assumes "main_graph h resolve = Inr (mainMod, edges, nodes, testOnly)"
  shows "\<exists>pkgs nodes0. buildEdges h pkgs = Inr (edges, nodes0) \<and>
           nodes = fold set_insert testOnly nodes0 \<and> strset_ok testOnly"
  using assms
  by (fastforce simp: main_graph_def Let_def strset_ok_def split: sum.splits prod.splits)

lemma main_go_graph_args:
  assumes "main_go_graph h resolve = Inr (edges, nodes, testOnly)"
  shows "\<exists>pkgs nodes0. buildEdges h pkgs = Inr (edges, nodes0) \<and>
           nodes = fold set_insert testOnly nodes0 \<and> strset_ok testOnly"
  using assms
  by (fastforce simp: main_go_graph_def Let_def strset_ok_def split: sum.splits prod.splits)

text \<open>
  Whatever the graph, the maps that reach the renderer are maps without repeated keys,
  which is what the statements on the renderer ask of them.
\<close>

lemma main_graph_maps_ok:
  assumes "main_graph h resolve = Inr (mainMod, edges, nodes, testOnly)"
  shows "edgemap_ok edges \<and> strset_ok nodes \<and> strset_ok testOnly"
proof -
  from main_graph_args[OF assms] obtain pkgs nodes0 where
    a: "buildEdges h pkgs = Inr (edges, nodes0)" "nodes = fold set_insert testOnly nodes0"
      "strset_ok testOnly" by blast
  from buildEdges_repr_ok[OF a(1)] a(2,3) show ?thesis by (simp add: strset_ok_def)
qed

lemma node_line_in_node_decls:
  assumes "i < length allNodes"
  shows "node_line quote i (allNodes ! i) \<in> set (node_decls quote allNodes)"
proof -
  have "(i, allNodes ! i) \<in> set (enumerate 0 allNodes)"
    using assms by (simp add: in_set_enumerate_eq)
  then have "(\<lambda>(i, name). node_line quote i name) (i, allNodes ! i) \<in> set (node_decls quote allNodes)"
    unfolding node_decls_def set_map by (rule imageI)
  then show ?thesis by simp
qed

lemma declared_if_in_nodes:
  assumes "m \<in> set nodes"
  shows "\<exists>i < length (all_nodes nodes). all_nodes nodes ! i = m \<and>
           node_line quote i m \<in> set (node_decls quote (all_nodes nodes))"
proof -
  from assms have "m \<in> set (all_nodes nodes)" by (simp add: all_nodes_def)
  then obtain i where i: "i < length (all_nodes nodes)" "all_nodes nodes ! i = m"
    by (auto simp: in_set_conv_nth)
  with node_line_in_node_decls[OF i(1), of quote] show ?thesis by auto
qed

text \<open>
  C10. In both revisions, the node set that \<^verbatim>\<open>main\<close> hands to \<^verbatim>\<open>writeDot\<close> is the node
  set of \<^verbatim>\<open>buildEdges\<close> with every module of the test-only set inserted. So every
  test-only module is in the rendered node set and has its declaration line in the
  output, with or without edges.
\<close>

theorem test_only_modules_are_declared:
  "(main_graph h resolve = Inr (mainMod, edges, nodes, testOnly) \<longrightarrow>
      (\<exists>pkgs nodes0. buildEdges h pkgs = Inr (edges, nodes0) \<and>
         nodes = fold set_insert testOnly nodes0) \<and>
      set testOnly \<subseteq> set nodes \<and>
      (\<forall>m \<in> set testOnly. \<exists>i < length (all_nodes nodes). all_nodes nodes ! i = m \<and>
         node_line quote i m \<in> set (writeDot_lines quote mainMod edges nodes testOnly))) \<and>
   (main_go_graph h resolve = Inr (edges, nodes, testOnly) \<longrightarrow>
      (\<exists>pkgs nodes0. buildEdges h pkgs = Inr (edges, nodes0) \<and>
         nodes = fold set_insert testOnly nodes0) \<and>
      set testOnly \<subseteq> set nodes \<and>
      (\<forall>m \<in> set testOnly. \<exists>i < length (all_nodes nodes). all_nodes nodes ! i = m \<and>
         node_line quote i m \<in> set (main_go_writeDot_lines quote edges nodes testOnly)))"
proof (intro conjI impI)
  assume a: "main_graph h resolve = Inr (mainMod, edges, nodes, testOnly)"
  from main_graph_args[OF a]
  show b: "\<exists>pkgs nodes0. buildEdges h pkgs = Inr (edges, nodes0) \<and>
             nodes = fold set_insert testOnly nodes0" by blast
  then show s: "set testOnly \<subseteq> set nodes" by auto
  show "\<forall>m \<in> set testOnly. \<exists>i < length (all_nodes nodes). all_nodes nodes ! i = m \<and>
         node_line quote i m \<in> set (writeDot_lines quote mainMod edges nodes testOnly)"
  proof
    fix m assume "m \<in> set testOnly"
    with s have "m \<in> set nodes" by auto
    from declared_if_in_nodes[OF this, of quote] show
      "\<exists>i < length (all_nodes nodes). all_nodes nodes ! i = m \<and>
         node_line quote i m \<in> set (writeDot_lines quote mainMod edges nodes testOnly)"
      by (auto simp: writeDot_lines_def Let_def)
  qed
next
  assume a: "main_go_graph h resolve = Inr (edges, nodes, testOnly)"
  from main_go_graph_args[OF a]
  show b: "\<exists>pkgs nodes0. buildEdges h pkgs = Inr (edges, nodes0) \<and>
             nodes = fold set_insert testOnly nodes0" by blast
  then show s: "set testOnly \<subseteq> set nodes" by auto
  show "\<forall>m \<in> set testOnly. \<exists>i < length (all_nodes nodes). all_nodes nodes ! i = m \<and>
         node_line quote i m \<in> set (main_go_writeDot_lines quote edges nodes testOnly)"
  proof
    fix m assume "m \<in> set testOnly"
    with s have "m \<in> set nodes" by auto
    from declared_if_in_nodes[OF this, of quote] show
      "\<exists>i < length (all_nodes nodes). all_nodes nodes ! i = m \<and>
         node_line quote i m \<in> set (main_go_writeDot_lines quote edges nodes testOnly)"
      by (auto simp: main_go_writeDot_lines_def Let_def)
  qed
qed

theorem test_only_modules_are_declared_witness:
  "main_graph example_heap example_resolver =
     Inr (''example.com/app'',
          [(''example.com/app'', [''example.com/lib'', ''example.com/testtool'']),
           (''example.com/lib'', [''example.com/app''])],
          [''example.com/fixture'', ''example.com/app'', ''example.com/lib'', ''example.com/testtool''],
          [''example.com/fixture'', ''example.com/testtool'']) \<and>
   ''example.com/fixture'' \<in> set [''example.com/fixture'', ''example.com/testtool''] \<and>
   (\<exists>i < 4. node_line quote_plain i ''example.com/fixture''
       \<in> set (writeDot_lines quote_plain ''example.com/app''
                [(''example.com/app'', [''example.com/lib'', ''example.com/testtool'']),
                 (''example.com/lib'', [''example.com/app''])]
                [''example.com/fixture'', ''example.com/app'', ''example.com/lib'', ''example.com/testtool'']
                [''example.com/fixture'', ''example.com/testtool'']))"
proof -
  have g: "main_graph example_heap example_resolver =
     Inr (''example.com/app'',
          [(''example.com/app'', [''example.com/lib'', ''example.com/testtool'']),
           (''example.com/lib'', [''example.com/app''])],
          [''example.com/fixture'', ''example.com/app'', ''example.com/lib'', ''example.com/testtool''],
          [''example.com/fixture'', ''example.com/testtool''])"
    by code_simp
  have l: "length (all_nodes [''example.com/fixture'', ''example.com/app'', ''example.com/lib'',
                              ''example.com/testtool'']) = 4"
    by (simp add: all_nodes_def)
  from test_only_modules_are_declared[of example_heap example_resolver "''example.com/app''"
      "[(''example.com/app'', [''example.com/lib'', ''example.com/testtool'']),
        (''example.com/lib'', [''example.com/app''])]"
      "[''example.com/fixture'', ''example.com/app'', ''example.com/lib'', ''example.com/testtool'']"
      "[''example.com/fixture'', ''example.com/testtool'']" quote_plain] g l
  show ?thesis by auto
qed


end
